theory Spec2Isabelle
  imports Complex_Main "HOL-Library.Sublist" "HOL-Library.Multiset" "HOL-Library.Log_Nat"
begin

section \<open>Overview\<close>

text \<open>
  A shallow embedding of the usage panel of the application and of the API module it
  calls: the extraction of the API key from a provider's settings
  (\<open>extractApiKey\<close>), the two wrappers around the backend queries (\<open>usageLogApi\<close>), the
  filter of the per-model statistics by application and their sum (\<open>models\<close>,
  \<open>periodUsage\<close>), the helpers \<open>calcProgress\<close> and \<open>formatTokens\<close>, and the handler
  \<open>handleQuery\<close> with the state it leaves. The definitions come first; the properties follow.
\<close>

section \<open>Values of the host language\<close>

text \<open>
  The settings payload of a provider is an untyped value: either JSON text or an already
  parsed object. \<open>json\<close> is the value a parsed payload can be. An object is the list of
  its own properties; a property is read with \<open>map_of\<close>.
\<close>

datatype json =
    JNull
  | JBool bool
  | JNum rat
  | JStr string
  | JArr "json list"
  | JObj "(string \<times> json) list"

text \<open>\<open>!v\<close> is true exactly for the falsy values.\<close>

fun truthy :: "json \<Rightarrow> bool" where
  "truthy JNull = False"
| "truthy (JBool b) = b"
| "truthy (JNum n) = (n \<noteq> 0)"
| "truthy (JStr s) = (s \<noteq> [])"
| "truthy (JArr _) = True"
| "truthy (JObj _) = True"

text \<open>
  \<open>v?.k\<close>: the property \<open>k\<close> of \<open>v\<close>, \<open>None\<close> for \<open>undefined\<close>. Only an object has
  the properties read here (\<open>env\<close>, \<open>auth\<close> and the key names); on \<open>null\<close> the optional
  chain yields \<open>undefined\<close>, on a primitive or an array the property is missing.
\<close>

fun getProp :: "json \<Rightarrow> string \<Rightarrow> json option" where
  "getProp (JObj kvs) k = map_of kvs k"
| "getProp _ k = None"

text \<open>\<open>x ?? {}\<close>: the empty object replaces \<open>undefined\<close> and \<open>null\<close>, nothing else.\<close>

fun orEmpty :: "json option \<Rightarrow> json" where
  "orEmpty None = JObj []"
| "orEmpty (Some JNull) = JObj []"
| "orEmpty (Some v) = v"

text \<open>\<open>typeof x === "string" ? x : ""\<close>\<close>

fun stringOr :: "json option \<Rightarrow> string \<Rightarrow> string" where
  "stringOr (Some (JStr s)) d = s"
| "stringOr _ d = d"

section \<open>extractApiKey\<close>

text \<open>
  The fields of \<open>Provider\<close> the panel reads. \<open>settingsConfig\<close> is \<open>None\<close> when the field is
  \<open>undefined\<close>; JSON text is the value \<open>JStr\<close>.
\<close>

record Provider =
  name :: string
  websiteUrl :: "string option"
  settingsConfig :: "json option"

datatype exn = SyntaxError

text \<open>
  The body of the \<open>try\<close> block. \<open>JSON.parse\<close> is the runtime's parser, a parameter here:
  \<open>parse s = None\<close> when it throws on \<open>s\<close>. That is the only statement of the block
  that can throw: \<open>env\<close> and \<open>auth\<close> are never \<open>null\<close> or \<open>undefined\<close> when read.
\<close>

definition extractApiKey_try :: "(string \<Rightarrow> json option) \<Rightarrow> json \<Rightarrow> string \<Rightarrow> exn + string" where
  "extractApiKey_try parse sc appId =
     (case (case sc of JStr s \<Rightarrow> (case parse s of None \<Rightarrow> Inl SyntaxError | Some v \<Rightarrow> Inr v)
                     | _ \<Rightarrow> Inr sc) of
        Inl e \<Rightarrow> Inl e
      | Inr config \<Rightarrow>
          (let env = orEmpty (getProp config ''env'') in
           if appId = ''gemini'' then Inr (stringOr (getProp env ''GEMINI_API_KEY'') '''')
           else if appId = ''codex'' then
             (let auth = orEmpty (getProp config ''auth'') in
              Inr (stringOr (getProp auth ''OPENAI_API_KEY'') ''''))
           else
             (let token = getProp env ''ANTHROPIC_AUTH_TOKEN'';
                  apiKey = getProp env ''ANTHROPIC_API_KEY''
              in Inr (stringOr token (stringOr apiKey '''')))))"

text \<open>
  The whole function, with what it can still throw after the \<open>catch\<close> in its type:
  \<open>Inl\<close> would be an exception that leaves the function.
\<close>

definition extractApiKey_run ::
  "(string \<Rightarrow> json option) \<Rightarrow> Provider option \<Rightarrow> string \<Rightarrow> exn + string" where
  "extractApiKey_run parse provider appId =
     (case provider of
        None \<Rightarrow> Inr ''''
      | Some p \<Rightarrow>
          (case settingsConfig p of
             None \<Rightarrow> Inr ''''
           | Some sc \<Rightarrow>
               if \<not> truthy sc then Inr ''''
               else (case extractApiKey_try parse sc appId of
                       Inl e \<Rightarrow> Inr ''''
                     | Inr s \<Rightarrow> Inr s)))"

definition extractApiKey :: "(string \<Rightarrow> json option) \<Rightarrow> Provider option \<Rightarrow> string \<Rightarrow> string" where
  "extractApiKey parse provider appId =
     (case extractApiKey_run parse provider appId of Inl e \<Rightarrow> '''' | Inr s \<Rightarrow> s)"

text \<open>
  The parsed payload of a provider, when there is one: the value the \<open>try\<close> block calls
  \<open>config\<close>.
\<close>

definition parsedConfig :: "(string \<Rightarrow> json option) \<Rightarrow> Provider \<Rightarrow> json option" where
  "parsedConfig parse p =
     (case settingsConfig p of
        None \<Rightarrow> None
      | Some sc \<Rightarrow> if \<not> truthy sc then None
                   else (case sc of JStr s \<Rightarrow> parse s | _ \<Rightarrow> Some sc))"

text \<open>A parser for the examples: it knows one text and throws on every other.\<close>

definition exampleParse :: "string \<Rightarrow> json option" where
  "exampleParse s =
     (if s = ''{env:{ANTHROPIC_API_KEY:k1}}''
      then Some (JObj [(''env'', JObj [(''ANTHROPIC_API_KEY'', JStr ''k1'')])])
      else None)"

section \<open>Numbers\<close>

text \<open>
  A \<open>number\<close> of the program is an IEEE 754 binary64 value. The model keeps the finite
  values, as the rationals they denote, and computes every arithmetic operation as the
  exact result rounded to 53 significant bits, ties to the even significand. The
  exponent is not bounded: the model agrees with binary64 while magnitudes stay inside
  the normal range, from \<open>2 powi -1022\<close> up to \<open>2 powi 1024\<close>. \<open>NaN\<close>, the infinities and
  the sign of zero are not values of the model; none of them can arrive in the JSON the
  backend returns.
\<close>

type_synonym number = rat

definition roundHalfEven :: "rat \<Rightarrow> int" where
  "roundHalfEven q =
     (let n = \<lfloor>q\<rfloor>; r = q - of_int n in
      if r < 1 / 2 then n else if 1 / 2 < r then n + 1 else if even n then n else n + 1)"

text \<open>The position of the leading bit of a positive rational: \<open>2 powi e \<le> q < 2 powi (e + 1)\<close>.\<close>

definition ilog2 :: "rat \<Rightarrow> int" where
  "ilog2 q =
     (let (a, b) = quotient_of q; k = bitlen a - bitlen b in
      if 2 powi k \<le> q then k else k - 1)"

text \<open>Rounding to the nearest binary64 value.\<close>

definition fl :: "rat \<Rightarrow> number" where
  "fl q =
     (if q = 0 then 0
      else (let u = ilog2 \<bar>q\<bar> - 52 in of_int (roundHalfEven (q / 2 powi u)) * 2 powi u))"

text \<open>The values a \<open>number\<close> can hold are the fixed points of the rounding.\<close>

definition isNumber :: "rat \<Rightarrow> bool" where
  "isNumber q = (fl q = q)"

definition js_add :: "number \<Rightarrow> number \<Rightarrow> number" where
  "js_add x y = fl (x + y)"

definition js_mul :: "number \<Rightarrow> number \<Rightarrow> number" where
  "js_mul x y = fl (x * y)"

definition js_div :: "number \<Rightarrow> number \<Rightarrow> number" where
  "js_div x y = fl (x / y)"

text \<open>
  \<open>!x\<close> for an optional number: \<open>undefined\<close>, \<open>null\<close> and zero are falsy.
\<close>

fun falsyNum :: "number option \<Rightarrow> bool" where
  "falsyNum None = True"
| "falsyNum (Some x) = (x = 0)"

subsection \<open>Numbers as text\<close>

text \<open>The decimal digits of an integer that is not negative.\<close>

definition digitChar :: "int \<Rightarrow> char" where
  "digitChar d = ''0123456789'' ! nat d"

function digits :: "int \<Rightarrow> string" where
  "digits n = (if n < 10 then [digitChar n] else digits (n div 10) @ [digitChar (n mod 10)])"
  by pat_completeness auto
termination
  by (relation "measure nat") auto

declare digits.simps [simp del]


text \<open>
  \<open>Number.prototype.toString\<close> with radix 10, by the steps of the language standard
  (\<open>Number::toString\<close>). Zero is \<open>0\<close>; a negative number is \<open>-\<close> before the text of its
  magnitude. For a positive number \<open>x\<close> the standard takes integers \<open>n\<close>, \<open>k\<close> and \<open>s\<close>
  with \<open>k \<ge> 1\<close>, \<open>10 ^ (k - 1) \<le> s < 10 ^ k\<close>, such that \<open>s * 10 powi (n - k)\<close> rounds to
  \<open>x\<close>, and \<open>k\<close> as small as possible; of several such \<open>s\<close> the one nearest to \<open>x\<close>,
  the even one of two. These are the shortest digits that read back as \<open>x\<close>.

  \<open>decimalExponent x\<close> is the \<open>n\<close> with \<open>10 powi (n - 1) \<le> x < 10 powi n\<close>: the number of
  digits of the integer part from 1 on, and below 1 one minus the number of digits of
  the largest integer below \<open>1 / x\<close>.
\<close>

definition decimalExponent :: "rat \<Rightarrow> int" where
  "decimalExponent x =
     (if 1 \<le> x then int (length (digits \<lfloor>x\<rfloor>))
      else 1 - int (length (digits (\<lceil>1 / x\<rceil> - 1))))"

text \<open>\<open>s\<close>, taken as \<open>k\<close> digits before the exponent \<open>n\<close>, reads back as \<open>x\<close>.\<close>

definition readsBack :: "rat \<Rightarrow> int \<Rightarrow> nat \<Rightarrow> int \<Rightarrow> bool" where
  "readsBack x n k s = (fl (of_int s * 10 powi (n - int k)) = x)"

text \<open>
  Of the integers \<open>s\<close>, only the two around \<open>x / 10 powi (n - k)\<close> need to be tried:
  rounding is monotone, so if any other reads back as \<open>x\<close>, then so does the one of
  these two on its side, which is nearer to \<open>x\<close>.
\<close>

definition hasDigits :: "rat \<Rightarrow> int \<Rightarrow> nat \<Rightarrow> bool" where
  "hasDigits x n k =
     (let lo = \<lfloor>x / 10 powi (n - int k)\<rfloor> in readsBack x n k lo \<or> readsBack x n k (lo + 1))"

definition pickDigits :: "rat \<Rightarrow> int \<Rightarrow> nat \<Rightarrow> int" where
  "pickDigits x n k =
     (let t = x / 10 powi (n - int k); lo = \<lfloor>t\<rfloor> in
      if readsBack x n k lo \<and> readsBack x n k (lo + 1) then roundHalfEven t
      else if readsBack x n k lo then lo
      else lo + 1)"

text \<open>
  The digits \<open>s\<close>, their number \<open>k\<close> and the exponent \<open>n\<close> of a positive number. The first
  \<open>k\<close> that has digits is taken. Seventeen digits always read back as the same binary64
  value, so at 17 the nearest \<open>s\<close> is taken without a search. When the digits found are
  \<open>10 ^ k\<close>, the number read back is \<open>10 powi n\<close>, which is the one digit 1 with the next
  exponent.
\<close>

definition shortestDigits :: "rat \<Rightarrow> int \<times> nat \<times> int" where
  "shortestDigits x =
     (let n = decimalExponent x;
          (k, s) = (case find (hasDigits x n) [1..<17] of
                      Some k \<Rightarrow> (k, pickDigits x n k)
                    | None \<Rightarrow> (17, roundHalfEven (x / 10 powi (n - 17))))
      in if s = 10 ^ k then (1, 1, n + 1) else (s, k, n))"

text \<open>
  The text of the digits, by the cases of the standard: for \<open>k \<le> n \<le> 21\<close> the digits and
  \<open>n - k\<close> zeros; for \<open>0 < n \<le> 21\<close> the point after the first \<open>n\<close> digits; for
  \<open>-6 < n \<le> 0\<close> the digits after \<open>0.\<close> and \<open>-n\<close> zeros; otherwise exponent notation
  with the exponent \<open>n - 1\<close>.
\<close>

definition numberText :: "int \<Rightarrow> nat \<Rightarrow> int \<Rightarrow> string" where
  "numberText s k n =
     (if int k \<le> n \<and> n \<le> 21 then digits s @ replicate (nat (n - int k)) CHR ''0''
      else if 0 < n \<and> n \<le> 21 then take (nat n) (digits s) @ ''.'' @ drop (nat n) (digits s)
      else if - 6 < n \<and> n \<le> 0 then ''0.'' @ replicate (nat (- n)) CHR ''0'' @ digits s
      else
        (let e = n - 1;
             es = (if e < 0 then ''-'' else ''+'') @ digits \<bar>e\<bar>
         in if k = 1 then digits s @ ''e'' @ es
            else take 1 (digits s) @ ''.'' @ drop 1 (digits s) @ ''e'' @ es))"

definition Number_toString :: "number \<Rightarrow> string" where
  "Number_toString x =
     (if x = 0 then ''0''
      else (if x < 0 then ''-'' else '''') @
           (case shortestDigits \<bar>x\<bar> of (s, k, n) \<Rightarrow> numberText s k n))"

text \<open>
  \<open>Number.prototype.toFixed\<close>, by the steps of the language standard: the sign is set
  aside; from \<open>10 ^ 21\<close> on the text is that of \<open>toString\<close>; otherwise \<open>n\<close> is the integer
  with \<open>n / 10 ^ f\<close> nearest to \<open>x\<close>, the larger one of two, its digits are padded with
  zeros to \<open>f + 1\<close> characters and the point is put before the last \<open>f\<close>.
\<close>

definition toFixed :: "number \<Rightarrow> nat \<Rightarrow> string" where
  "toFixed x0 f =
     (let s = (if x0 < 0 then ''-'' else '''');
          x = \<bar>x0\<bar>
      in if 10 ^ 21 \<le> x then s @ Number_toString x
         else
           (let n = \<lfloor>x * 10 ^ f + 1 / 2\<rfloor>;
                m = digits n;
                m = (if f \<noteq> 0 then
                       (let k = length m;
                            m = (if k \<le> f then replicate (f + 1 - k) CHR ''0'' @ m else m);
                            k = (if k \<le> f then f + 1 else k)
                        in take (k - f) m @ ''.'' @ drop (k - f) m)
                     else m)
            in s @ m))"

section \<open>The usage API\<close>

text \<open>
  The result types of the two remote queries, field by field; an optional field is an
  \<open>option\<close>. Field names that several records share are written with the record's
  name where they are used.
\<close>

record UsageTotal =
  requests :: "number option"
  inputTokens :: "number option"
  outputTokens :: "number option"
  cacheCreateTokens :: "number option"
  cacheReadTokens :: "number option"
  allTokens :: "number option"
  cost :: "number option"
  formattedCost :: "string option"

record Usage =
  total :: "UsageTotal option"

record Limits =
  concurrencyLimit :: "number option"
  dailyCostLimit :: "number option"
  totalCostLimit :: "number option"
  currentDailyCost :: "number option"
  currentTotalCost :: "number option"
  weeklyOpusCost :: "number option"

record Accounts =
  claudeAccountId :: "string option"
  geminiAccountId :: "string option"
  openaiAccountId :: "string option"

record UsageLogData =
  name :: "string option"
  id :: string
  isActive :: bool
  createdAt :: string
  expiresAt :: "string option"
  description :: "string option"
  usage :: "Usage option"
  limits :: "Limits option"
  accounts :: "Accounts option"

record UsageLogResult =
  success :: bool
  data :: "UsageLogData option"
  error :: "string option"

record Formatted =
  input :: string
  output' :: string
  cacheWrite :: string
  cacheRead :: string
  total :: string

record Pricing =
  input :: number
  output' :: number
  cacheWrite :: number
  cacheRead :: number

record Costs =
  input :: number
  output' :: number
  cacheWrite :: number
  cacheRead :: number
  total :: number

record ModelStatsItem =
  model :: string
  requests :: number
  inputTokens :: number
  outputTokens :: number
  cacheCreateTokens :: number
  cacheReadTokens :: number
  allTokens :: number
  costs :: Costs
  formatted :: Formatted
  pricing :: Pricing

record ModelStatsResult =
  success :: bool
  data :: "ModelStatsItem list option"
  period :: "string option"
  error :: "string option"

text \<open>
  \<open>invoke\<close> is the bridge to the backend. A call either returns a result or throws; what
  it throws is a string or some other value. The same type holds what any other
  statement throws.
\<close>

datatype 'e thrown = ThrownString string | ThrownOther 'e

record InvokeArgs =
  apiKey :: string
  baseUrl :: "string option"
  period :: string

text \<open>\<open>s || d\<close> for an optional string: \<open>undefined\<close> and the empty string are falsy.\<close>

fun orString :: "string option \<Rightarrow> string \<Rightarrow> string" where
  "orString None d = d"
| "orString (Some s) d = (if s = [] then d else s)"

text \<open>\<open>baseUrl || null\<close>\<close>

fun orNull :: "string option \<Rightarrow> string option" where
  "orNull None = None"
| "orNull (Some s) = (if s = [] then None else Some s)"

definition invokeArgs :: "string \<Rightarrow> string option \<Rightarrow> string option \<Rightarrow> InvokeArgs" where
  "invokeArgs key url per =
     \<lparr>apiKey = key, baseUrl = orNull url, InvokeArgs.period = orString per ''daily''\<rparr>"

text \<open>
  \<open>typeof error === "string" ? error : String(error)\<close>. \<open>String\<close> of a value that is not
  a string is the runtime's conversion, a parameter here. It can throw: on an object whose
  \<open>toString\<close> and \<open>valueOf\<close> yield no primitive it throws a \<open>TypeError\<close>, and a
  \<open>toString\<close> of the object's own can throw anything. \<open>String v = Inl t\<close> when it throws
  \<open>t\<close> on \<open>v\<close>.
\<close>

fun errorText :: "('e \<Rightarrow> 'e thrown + string) \<Rightarrow> 'e thrown \<Rightarrow> 'e thrown + string" where
  "errorText String (ThrownString s) = Inr s"
| "errorText String (ThrownOther e) = String e"

text \<open>
  The two wrappers of \<open>usageLogApi\<close>. The value is the settled promise: \<open>Inl\<close> a
  rejection, \<open>Inr\<close> the result it resolves to. The conversion of the error stands in the
  \<open>catch\<close> block with nothing around it: what it throws rejects the promise.
\<close>

definition query ::
  "(string \<Rightarrow> InvokeArgs \<Rightarrow> 'e thrown + UsageLogResult) \<Rightarrow> ('e \<Rightarrow> 'e thrown + string) \<Rightarrow>
   string \<Rightarrow> string option \<Rightarrow> string option \<Rightarrow> 'e thrown + UsageLogResult" where
  "query invoke String key url per =
     (case invoke ''query_api_usage'' (invokeArgs key url per) of
        Inr result \<Rightarrow> Inr result
      | Inl e \<Rightarrow>
          (case errorText String e of
             Inl t \<Rightarrow> Inl t
           | Inr s \<Rightarrow> Inr \<lparr>UsageLogResult.success = False, UsageLogResult.data = None,
                            UsageLogResult.error = Some s\<rparr>))"

definition queryModelStats ::
  "(string \<Rightarrow> InvokeArgs \<Rightarrow> 'e thrown + ModelStatsResult) \<Rightarrow> ('e \<Rightarrow> 'e thrown + string) \<Rightarrow>
   string \<Rightarrow> string option \<Rightarrow> string option \<Rightarrow> 'e thrown + ModelStatsResult" where
  "queryModelStats invoke String key url per =
     (case invoke ''query_model_stats'' (invokeArgs key url per) of
        Inr result \<Rightarrow> Inr result
      | Inl e \<Rightarrow>
          (case errorText String e of
             Inl t \<Rightarrow> Inl t
           | Inr s \<Rightarrow> Inr \<lparr>success = False, data = None, period = None, error = Some s\<rparr>))"

section \<open>The usage panel\<close>

subsection \<open>Strings\<close>

text \<open>
  A string is a list of \<open>char\<close>, one byte each: the model covers ASCII text, which is
  what model identifiers and keys are. \<open>toLowerCase\<close> maps \<open>A\<close> to \<open>Z\<close> onto \<open>a\<close> to \<open>z\<close>.
\<close>

definition toLowerCase_char :: "char \<Rightarrow> char" where
  "toLowerCase_char c =
     (let n = (of_char c :: nat) in if 65 \<le> n \<and> n \<le> 90 then char_of (n + 32) else c)"

definition toLowerCase :: "string \<Rightarrow> string" where
  "toLowerCase s = map toLowerCase_char s"

text \<open>\<open>s.includes(t)\<close>: \<open>t\<close> starts at some position of \<open>s\<close>.\<close>

fun includes_str :: "string \<Rightarrow> string \<Rightarrow> bool" where
  "includes_str [] t = (t = [])"
| "includes_str (c # cs) t = (prefix t (c # cs) \<or> includes_str cs t)"

text \<open>\<open>s.trim()\<close> removes white space at both ends.\<close>

definition isSpace :: "char \<Rightarrow> bool" where
  "isSpace c = ((of_char c :: nat) \<in> {9, 10, 11, 12, 13, 32})"

definition trim :: "string \<Rightarrow> string" where
  "trim s = rev (dropWhile isSpace (rev (dropWhile isSpace s)))"

subsection \<open>Formatting and progress\<close>

definition formatTokens :: "number option \<Rightarrow> string" where
  "formatTokens num =
     (case num of
        None \<Rightarrow> ''-''
      | Some n \<Rightarrow>
          if 1000000 \<le> n then toFixed (js_div n 1000000) 2 @ ''M''
          else if 1000 \<le> n then toFixed (js_div n 1000) 1 @ ''K''
          else Number_toString n)"

definition calcProgress :: "number option \<Rightarrow> number option \<Rightarrow> number" where
  "calcProgress current limit =
     (if falsyNum current \<or> falsyNum limit \<or> limit = Some 0 then 0
      else min (js_mul (js_div (the current) (the limit)) 100) 100)"

subsection \<open>Models of the application and their sum\<close>

text \<open>The callback of the filter: the test on one item, for the panel's \<open>appId\<close>.\<close>

definition keepModel :: "string \<Rightarrow> ModelStatsItem \<Rightarrow> bool" where
  "keepModel appId m =
     (let model = toLowerCase (ModelStatsItem.model m) in
      if appId = ''claude'' then
        includes_str model ''claude'' \<or> includes_str model ''anthropic'' \<or>
        includes_str model ''sonnet'' \<or> includes_str model ''opus'' \<or> includes_str model ''haiku''
      else if appId = ''codex'' then
        includes_str model ''gpt'' \<or> includes_str model ''o1'' \<or>
        includes_str model ''o3'' \<or> includes_str model ''o4''
      else if appId = ''gemini'' then includes_str model ''gemini''
      else True)"

definition models :: "string \<Rightarrow> ModelStatsItem list \<Rightarrow> ModelStatsItem list" where
  "models appId allModels = filter (keepModel appId) allModels"

record PeriodUsage =
  requests :: number
  inputTokens :: number
  outputTokens :: number
  cacheCreateTokens :: number
  cacheReadTokens :: number
  allTokens :: number
  cost :: number

text \<open>The callback of the \<open>reduce\<close>.\<close>

definition addUsage :: "PeriodUsage \<Rightarrow> ModelStatsItem \<Rightarrow> PeriodUsage" where
  "addUsage acc m =
     \<lparr>requests = js_add (PeriodUsage.requests acc) (ModelStatsItem.requests m),
      inputTokens = js_add (PeriodUsage.inputTokens acc) (ModelStatsItem.inputTokens m),
      outputTokens = js_add (PeriodUsage.outputTokens acc) (ModelStatsItem.outputTokens m),
      cacheCreateTokens = js_add (PeriodUsage.cacheCreateTokens acc) (ModelStatsItem.cacheCreateTokens m),
      cacheReadTokens = js_add (PeriodUsage.cacheReadTokens acc) (ModelStatsItem.cacheReadTokens m),
      allTokens = js_add (PeriodUsage.allTokens acc) (ModelStatsItem.allTokens m),
      cost = js_add (cost acc) (total (costs m))\<rparr>"

definition periodUsage :: "ModelStatsItem list \<Rightarrow> PeriodUsage option" where
  "periodUsage ms =
     (if length ms > 0 then
        Some (foldl addUsage
                \<lparr>requests = 0, inputTokens = 0, outputTokens = 0, cacheCreateTokens = 0,
                 cacheReadTokens = 0, allTokens = 0, cost = 0\<rparr> ms)
      else None)"

definition allModelsCost :: "ModelStatsItem list \<Rightarrow> number" where
  "allModelsCost allModels = foldl (\<lambda>sum m. js_add sum (total (costs m))) 0 allModels"

subsection \<open>The state of the panel and a fetch\<close>

record PanelState =
  isLoading :: bool
  result :: "UsageLogResult option"
  modelStats :: "ModelStatsResult option"

text \<open>
  \<open>Promise.all\<close> of the two settled calls: it resolves to both results, or rejects with
  the rejection that comes first; \<open>firstWins\<close> says that of two rejections the first
  call's is the earlier one.
\<close>

fun promiseAll :: "bool \<Rightarrow> 'e + 'a \<Rightarrow> 'e + 'b \<Rightarrow> 'e + ('a \<times> 'b)" where
  "promiseAll firstWins (Inr a) (Inr b) = Inr (a, b)"
| "promiseAll firstWins (Inl e) (Inr b) = Inl e"
| "promiseAll firstWins (Inr a) (Inl e) = Inl e"
| "promiseAll firstWins (Inl e1) (Inl e2) = Inl (if firstWins then e1 else e2)"

text \<open>
  \<open>handleQuery\<close>, from the state before to the state after the fetch has settled. The
  two calls are parameters, so that the handler can be run on any calls that reject as
  well as on the wrappers \<open>query\<close> and \<open>queryModelStats\<close>. In the \<open>catch\<close> block
  \<open>String(error)\<close> is evaluated before anything is set; when it throws, only the
  \<open>finally\<close> block runs and the handler's own promise rejects.
\<close>

definition handleQuery_on ::
  "(string \<Rightarrow> string option \<Rightarrow> string option \<Rightarrow> 'e thrown + UsageLogResult) \<Rightarrow>
   (string \<Rightarrow> string option \<Rightarrow> string option \<Rightarrow> 'e thrown + ModelStatsResult) \<Rightarrow>
   ('e \<Rightarrow> 'e thrown + string) \<Rightarrow> bool \<Rightarrow> string \<Rightarrow> string \<Rightarrow> string \<Rightarrow>
   PanelState \<Rightarrow> PanelState" where
  "handleQuery_on q1 q2 String firstWins key url per st =
     (if trim key = [] then st
      else
        (case promiseAll firstWins (q1 key (Some url) (Some per)) (q2 key (Some url) (Some per)) of
           Inr (userResult, modelResult) \<Rightarrow>
             st\<lparr>result := Some userResult, modelStats := Some modelResult, isLoading := False\<rparr>
         | Inl e \<Rightarrow>
             (case errorText String e of
                Inr s \<Rightarrow>
                  st\<lparr>result := Some \<lparr>UsageLogResult.success = False, UsageLogResult.data = None,
                                      UsageLogResult.error = Some s\<rparr>,
                     modelStats := None, isLoading := False\<rparr>
              | Inl t \<Rightarrow> st\<lparr>isLoading := False\<rparr>)))"

text \<open>What the handler's own promise rejects with, \<open>None\<close> when it resolves.\<close>

definition handleQuery_on_rejection ::
  "(string \<Rightarrow> string option \<Rightarrow> string option \<Rightarrow> 'e thrown + UsageLogResult) \<Rightarrow>
   (string \<Rightarrow> string option \<Rightarrow> string option \<Rightarrow> 'e thrown + ModelStatsResult) \<Rightarrow>
   ('e \<Rightarrow> 'e thrown + string) \<Rightarrow> bool \<Rightarrow> string \<Rightarrow> string \<Rightarrow> string \<Rightarrow> 'e thrown option" where
  "handleQuery_on_rejection q1 q2 String firstWins key url per =
     (if trim key = [] then None
      else
        (case promiseAll firstWins (q1 key (Some url) (Some per)) (q2 key (Some url) (Some per)) of
           Inr both \<Rightarrow> None
         | Inl e \<Rightarrow> (case errorText String e of Inr s \<Rightarrow> None | Inl t \<Rightarrow> Some t)))"

definition handleQuery ::
  "(string \<Rightarrow> InvokeArgs \<Rightarrow> 'e thrown + UsageLogResult) \<Rightarrow>
   (string \<Rightarrow> InvokeArgs \<Rightarrow> 'e thrown + ModelStatsResult) \<Rightarrow>
   ('e \<Rightarrow> 'e thrown + string) \<Rightarrow> bool \<Rightarrow> string \<Rightarrow> string \<Rightarrow> string \<Rightarrow>
   PanelState \<Rightarrow> PanelState" where
  "handleQuery invoke1 invoke2 String firstWins key url per st =
     handleQuery_on (query invoke1 String) (queryModelStats invoke2 String) String firstWins key url per st"

text \<open>
  What the panel renders from a state. The error view shows \<open>result.error\<close> or, when
  that is missing or empty, the translation of \<open>usageLog.error.unknown\<close>, which is the
  parameter \<open>unknownText\<close>; \<open>None\<close> when the error view is not rendered.
\<close>

definition showsError :: "string \<Rightarrow> PanelState \<Rightarrow> string option" where
  "showsError unknownText st =
     (case result st of
        None \<Rightarrow> None
      | Some r \<Rightarrow>
          if \<not> isLoading st \<and> \<not> UsageLogResult.success r
          then Some (orString (UsageLogResult.error r) unknownText)
          else None)"

text \<open>The data view is rendered; the per-model list it works on.\<close>

definition showsData :: "PanelState \<Rightarrow> bool" where
  "showsData st =
     (case result st of
        None \<Rightarrow> False
      | Some r \<Rightarrow> \<not> isLoading st \<and> UsageLogResult.success r \<and> UsageLogResult.data r \<noteq> None)"

definition allModels :: "PanelState \<Rightarrow> ModelStatsItem list" where
  "allModels st =
     (case modelStats st of
        None \<Rightarrow> []
      | Some r \<Rightarrow> (case ModelStatsResult.data r of None \<Rightarrow> [] | Some ms \<Rightarrow> ms))"

section \<open>The specification's reading of the filter\<close>

text \<open>
  The words of each application, as the specification lists them, and what it means for
  an identifier to contain a word as a substring when case is ignored: some contiguous
  part of the identifier equals the word up to case. These two definitions follow the
  specification; the filter of the program is \<open>models\<close>.
\<close>

definition familyWords :: "string \<Rightarrow> string list option" where
  "familyWords appKind =
     (if appKind = ''claude'' then Some [''claude'', ''anthropic'', ''sonnet'', ''opus'', ''haiku'']
      else if appKind = ''codex'' then Some [''gpt'', ''o1'', ''o3'', ''o4'']
      else if appKind = ''gemini'' then Some [''gemini'']
      else None)"

definition containsIgnoringCase :: "string \<Rightarrow> string \<Rightarrow> bool" where
  "containsIgnoringCase s w = (\<exists>u. sublist u s \<and> toLowerCase u = toLowerCase w)"

definition specKeeps :: "string \<Rightarrow> ModelStatsItem \<Rightarrow> bool" where
  "specKeeps appKind m =
     (case familyWords appKind of
        None \<Rightarrow> True
      | Some ws \<Rightarrow> (\<exists>w \<in> set ws. containsIgnoringCase (ModelStatsItem.model m) w))"

text \<open>The two items of the specification's example.\<close>

definition opusItem :: ModelStatsItem where
  "opusItem =
     \<lparr>model = ''claude-3-opus'', ModelStatsItem.requests = 10, ModelStatsItem.inputTokens = 100,
      ModelStatsItem.outputTokens = 50, ModelStatsItem.cacheCreateTokens = 0,
      ModelStatsItem.cacheReadTokens = 0, ModelStatsItem.allTokens = 150,
      costs = \<lparr>input = 1, output' = 1 / 2, cacheWrite = 0, cacheRead = 0, total = 3 / 2\<rparr>,
      formatted = \<lparr>Formatted.input = ''$1.00'', Formatted.output' = ''$0.50'', Formatted.cacheWrite = ''$0'',
                   Formatted.cacheRead = ''$0'', Formatted.total = ''$1.50''\<rparr>,
      pricing = \<lparr>Pricing.input = 15, Pricing.output' = 75, Pricing.cacheWrite = 0,
                 Pricing.cacheRead = 0\<rparr>\<rparr>"

definition gptItem :: ModelStatsItem where
  "gptItem =
     \<lparr>model = ''gpt-4o'', ModelStatsItem.requests = 5, ModelStatsItem.inputTokens = 40,
      ModelStatsItem.outputTokens = 20, ModelStatsItem.cacheCreateTokens = 0,
      ModelStatsItem.cacheReadTokens = 0, ModelStatsItem.allTokens = 60,
      costs = \<lparr>input = 1 / 4, output' = 1 / 4, cacheWrite = 0, cacheRead = 0, total = 1 / 2\<rparr>,
      formatted = \<lparr>Formatted.input = ''$0.25'', Formatted.output' = ''$0.25'', Formatted.cacheWrite = ''$0'',
                   Formatted.cacheRead = ''$0'', Formatted.total = ''$0.50''\<rparr>,
      pricing = \<lparr>Pricing.input = 15, Pricing.output' = 75, Pricing.cacheWrite = 0,
                 Pricing.cacheRead = 0\<rparr>\<rparr>"

section \<open>Notions for the statements about sums\<close>

text \<open>The sum of a list as the program adds it: from zero, left to right, every addition rounded.\<close>

definition sumNumbers :: "number list \<Rightarrow> number" where
  "sumNumbers xs = foldl js_add 0 xs"

text \<open>A count: a non-negative integer.\<close>

definition isCount :: "number \<Rightarrow> bool" where
  "isCount x = (0 \<le> x \<and> of_int \<lfloor>x\<rfloor> = x)"

text \<open>The six counters of an item and of a sum, in the order of the record.\<close>

definition itemCounters :: "ModelStatsItem \<Rightarrow> number list" where
  "itemCounters m =
     [ModelStatsItem.requests m, ModelStatsItem.inputTokens m, ModelStatsItem.outputTokens m,
      ModelStatsItem.cacheCreateTokens m, ModelStatsItem.cacheReadTokens m,
      ModelStatsItem.allTokens m]"

definition counters :: "PeriodUsage \<Rightarrow> number list" where
  "counters u =
     [PeriodUsage.requests u, PeriodUsage.inputTokens u, PeriodUsage.outputTokens u,
      PeriodUsage.cacheCreateTokens u, PeriodUsage.cacheReadTokens u, PeriodUsage.allTokens u]"

text \<open>The exact sums of the six counters over a list of items.\<close>

definition exactCounters :: "ModelStatsItem list \<Rightarrow> number list" where
  "exactCounters ms =
     [sum_list (map ModelStatsItem.requests ms), sum_list (map ModelStatsItem.inputTokens ms),
      sum_list (map ModelStatsItem.outputTokens ms), sum_list (map ModelStatsItem.cacheCreateTokens ms),
      sum_list (map ModelStatsItem.cacheReadTokens ms), sum_list (map ModelStatsItem.allTokens ms)]"

text \<open>An item as the backend sends it: every numeric field read by the sum is a \<open>number\<close>.\<close>

definition wellFormedItem :: "ModelStatsItem \<Rightarrow> bool" where
  "wellFormedItem m = (list_all isNumber (itemCounters m) \<and> isNumber (total (costs m)))"

text \<open>
  Counters that stay exact: each is a count and no total exceeds \<open>2 ^ 53\<close>, the range in
  which every integer is a \<open>number\<close>.
\<close>

definition safeCounts :: "ModelStatsItem list \<Rightarrow> bool" where
  "safeCounts ms =
     (list_all (\<lambda>m. list_all isCount (itemCounters m)) ms \<and>
      list_all (\<lambda>s. s \<le> 2 ^ 53) (exactCounters ms))"

text \<open>Three items that differ in cost only: 0.1, 0.2 and 0.3 as the program reads them.\<close>

definition costItem :: "string \<Rightarrow> number \<Rightarrow> ModelStatsItem" where
  "costItem nm c =
     \<lparr>model = nm, ModelStatsItem.requests = 1, ModelStatsItem.inputTokens = 0,
      ModelStatsItem.outputTokens = 0, ModelStatsItem.cacheCreateTokens = 0,
      ModelStatsItem.cacheReadTokens = 0, ModelStatsItem.allTokens = 0,
      costs = \<lparr>input = c, output' = 0, cacheWrite = 0, cacheRead = 0, total = c\<rparr>,
      formatted = \<lparr>Formatted.input = [], Formatted.output' = [], Formatted.cacheWrite = [],
                   Formatted.cacheRead = [], Formatted.total = []\<rparr>,
      pricing = \<lparr>Pricing.input = 0, Pricing.output' = 0, Pricing.cacheWrite = 0,
                 Pricing.cacheRead = 0\<rparr>\<rparr>"

definition itemA :: ModelStatsItem where
  "itemA = costItem ''claude-a'' (fl (1 / 10))"

definition itemB :: ModelStatsItem where
  "itemB = costItem ''claude-b'' (fl (2 / 10))"

definition itemC :: ModelStatsItem where
  "itemC = costItem ''claude-c'' (fl (3 / 10))"

section \<open>Notions for the statements about progress and fetches\<close>

text \<open>An optional number that is absent or not negative.\<close>

fun nonNegative :: "number option \<Rightarrow> bool" where
  "nonNegative None = True"
| "nonNegative (Some x) = (0 \<le> x)"

text \<open>
  Backends for the examples: \<open>invoke\<close> that throws the period it was given, as a string,
  \<open>invoke\<close> that returns a fixed result, and \<open>invoke\<close> that throws a value that is not a
  string.
\<close>

definition throwsPeriod :: "string \<Rightarrow> InvokeArgs \<Rightarrow> unit thrown + 'r" where
  "throwsPeriod cmd args = Inl (ThrownString (InvokeArgs.period args))"

definition returns :: "'r \<Rightarrow> string \<Rightarrow> InvokeArgs \<Rightarrow> unit thrown + 'r" where
  "returns r cmd args = Inr r"

definition throwsOther :: "string \<Rightarrow> InvokeArgs \<Rightarrow> unit thrown + 'r" where
  "throwsOther cmd args = Inl (ThrownOther ())"

text \<open>
  Values that are thrown in the examples, and \<open>String\<close> on them: an \<open>Error\<close> with its
  message, whose text is \<open>Error: \<close> and the message; an object that cannot be converted,
  such as \<open>{toString: 1}\<close>, on which \<open>String\<close> throws a \<open>TypeError\<close>; and that
  \<open>TypeError\<close>, whose text is its name and its message.
\<close>

datatype thrownValue = ErrorObject string | Unconvertible | TypeErrorObject

fun exampleString :: "thrownValue \<Rightarrow> thrownValue thrown + string" where
  "exampleString (ErrorObject msg) = Inr (''Error: '' @ msg)"
| "exampleString Unconvertible = Inl (ThrownOther TypeErrorObject)"
| "exampleString TypeErrorObject = Inr ''TypeError: Cannot convert object to primitive value''"

definition throwsValue :: "thrownValue \<Rightarrow> string \<Rightarrow> InvokeArgs \<Rightarrow> thrownValue thrown + 'r" where
  "throwsValue v cmd args = Inl (ThrownOther v)"

definition exampleData :: UsageLogData where
  "exampleData =
     \<lparr>UsageLogData.name = Some ''key-1'', id = ''k1'', isActive = True, createdAt = ''2025-01-01'',
      expiresAt = None, description = None, usage = None, limits = None, accounts = None\<rparr>"

definition overviewOk :: UsageLogResult where
  "overviewOk =
     \<lparr>UsageLogResult.success = True, UsageLogResult.data = Some exampleData,
      UsageLogResult.error = None\<rparr>"

definition overviewFailed :: UsageLogResult where
  "overviewFailed =
     \<lparr>UsageLogResult.success = False, UsageLogResult.data = None,
      UsageLogResult.error = Some ''invalid key''\<rparr>"

definition statsOk :: ModelStatsResult where
  "statsOk = \<lparr>success = True, data = Some [opusItem], period = Some ''daily'', error = None\<rparr>"

definition statsFailed :: ModelStatsResult where
  "statsFailed = \<lparr>success = False, data = None, period = None, error = Some ''stats down''\<rparr>"

definition idle :: PanelState where
  "idle = \<lparr>isLoading = False, result = None, modelStats = None\<rparr>"

section \<open>Notions for the statements about the text of a number\<close>

text \<open>The last \<open>f\<close> decimal digits of an integer, with leading zeros.\<close>

fun lastDigits :: "nat \<Rightarrow> int \<Rightarrow> string" where
  "lastDigits 0 b = []"
| "lastDigits (Suc f) b = lastDigits f (b div 10) @ [digitChar (b mod 10)]"

text \<open>
  The number \<open>n / 10 ^ f\<close> written with \<open>f\<close> decimals: the digits of the integer part,
  and for \<open>f > 0\<close> the point and exactly \<open>f\<close> digits.
\<close>

definition decimalText :: "int \<Rightarrow> nat \<Rightarrow> string" where
  "decimalText n f =
     (if f = 0 then digits n else digits (n div 10 ^ f) @ ''.'' @ lastDigits f (n mod 10 ^ f))"

section \<open>Properties of extractApiKey\<close>

lemma extractApiKey_parsed:
  assumes "parsedConfig parse p = Some config"
  shows "extractApiKey parse (Some p) appId =
     (let env = orEmpty (getProp config ''env'') in
      if appId = ''gemini'' then stringOr (getProp env ''GEMINI_API_KEY'') ''''
      else if appId = ''codex'' then stringOr (getProp (orEmpty (getProp config ''auth'')) ''OPENAI_API_KEY'') ''''
      else stringOr (getProp env ''ANTHROPIC_AUTH_TOKEN'') (stringOr (getProp env ''ANTHROPIC_API_KEY'') ''''))"
  using assms
  by (auto simp: parsedConfig_def extractApiKey_def extractApiKey_run_def extractApiKey_try_def Let_def
      split: option.splits json.splits if_splits)

lemma extractApiKey_unparsed:
  assumes "parsedConfig parse p = None"
  shows "extractApiKey parse (Some p) appId = ''''"
  using assms
  by (auto simp: parsedConfig_def extractApiKey_def extractApiKey_run_def extractApiKey_try_def Let_def
      split: option.splits json.splits if_splits)

text \<open>
  C1. When the parsed settings payload of a provider has an \<open>env\<close> mapping, the key
  returned is: for \<open>gemini\<close>, \<open>env.GEMINI_API_KEY\<close> when it is a string and the empty string
  otherwise; for \<open>codex\<close>, \<open>auth.OPENAI_API_KEY\<close> of the payload's \<open>auth\<close> (the empty
  mapping when \<open>auth\<close> is missing or \<open>null\<close>) when it is a string and the empty string
  otherwise; for every other application, \<open>env.ANTHROPIC_AUTH_TOKEN\<close> when it is a string,
  else \<open>env.ANTHROPIC_API_KEY\<close> when it is a string, else the empty string.
\<close>

theorem extractApiKey_by_app:
  assumes "parsedConfig parse p = Some config"
    and "getProp config ''env'' = Some (JObj env)"
  shows "extractApiKey parse (Some p) appId =
     (if appId = ''gemini'' then
        (case map_of env ''GEMINI_API_KEY'' of Some (JStr k) \<Rightarrow> k | _ \<Rightarrow> '''')
      else if appId = ''codex'' then
        (case getProp (case getProp config ''auth'' of None \<Rightarrow> JObj [] | Some JNull \<Rightarrow> JObj [] | Some a \<Rightarrow> a)
                ''OPENAI_API_KEY'' of
           Some (JStr k) \<Rightarrow> k | _ \<Rightarrow> '''')
      else
        (case map_of env ''ANTHROPIC_AUTH_TOKEN'' of
           Some (JStr t) \<Rightarrow> t
         | _ \<Rightarrow> (case map_of env ''ANTHROPIC_API_KEY'' of Some (JStr k) \<Rightarrow> k | _ \<Rightarrow> '''')))"
proof -
  have env: "orEmpty (getProp config ''env'') = JObj env"
    using assms(2) by simp
  have str: "stringOr v d = (case v of Some (JStr k) \<Rightarrow> k | _ \<Rightarrow> d)" for v d
    by (cases "(v, d)" rule: stringOr.cases) simp_all
  have emp: "orEmpty v = (case v of None \<Rightarrow> JObj [] | Some JNull \<Rightarrow> JObj [] | Some a \<Rightarrow> a)" for v
    by (cases v rule: orEmpty.cases) simp_all
  show ?thesis
    unfolding extractApiKey_parsed [OF assms(1)] Let_def env
    by (simp add: str emp)
qed

theorem extractApiKey_by_app_witness:
  "extractApiKey exampleParse
     (Some \<lparr>Provider.name = ''p1'', websiteUrl = None,
            settingsConfig = Some (JStr ''{env:{ANTHROPIC_API_KEY:k1}}'')\<rparr>) ''claude'' = ''k1''
   \<and> extractApiKey exampleParse
     (Some \<lparr>Provider.name = ''p2'', websiteUrl = None,
            settingsConfig = Some (JObj [(''env'', JObj [(''GEMINI_API_KEY'', JStr ''g1'')]),
                                         (''auth'', JObj [(''OPENAI_API_KEY'', JStr ''o1'')])])\<rparr>) ''codex'' = ''o1''"
proof -
  let ?p1 = "\<lparr>Provider.name = ''p1'', websiteUrl = None,
              settingsConfig = Some (JStr ''{env:{ANTHROPIC_API_KEY:k1}}'')\<rparr>"
  let ?c1 = "JObj [(''env'', JObj [(''ANTHROPIC_API_KEY'', JStr ''k1'')])]"
  let ?c2 = "JObj [(''env'', JObj [(''GEMINI_API_KEY'', JStr ''g1'')]),
                   (''auth'', JObj [(''OPENAI_API_KEY'', JStr ''o1'')])]"
  let ?p2 = "\<lparr>Provider.name = ''p2'', websiteUrl = None, settingsConfig = Some ?c2\<rparr>"
  have a1: "parsedConfig exampleParse ?p1 = Some ?c1"
    by (simp add: parsedConfig_def exampleParse_def)
  have b1: "getProp ?c1 ''env'' = Some (JObj [(''ANTHROPIC_API_KEY'', JStr ''k1'')])"
    by simp
  have a2: "parsedConfig exampleParse ?p2 = Some ?c2"
    by (simp add: parsedConfig_def)
  have b2: "getProp ?c2 ''env'' = Some (JObj [(''GEMINI_API_KEY'', JStr ''g1'')])"
    by simp
  show ?thesis
    using extractApiKey_by_app [OF a1 b1, of "''claude''"]
          extractApiKey_by_app [OF a2 b2, of "''codex''"]
    by simp
qed

text \<open>
  C4. The function never raises: with the \<open>catch\<close> in place every run ends in a string.
  The string is empty when the provider is absent, when the provider has no settings
  payload (the field is missing or falsy), and when the payload is text that the parser
  rejects.
\<close>

theorem extractApiKey_total:
  "(\<exists>s. extractApiKey_run parse provider appId = Inr s \<and> extractApiKey parse provider appId = s)
   \<and> extractApiKey parse None appId = ''''
   \<and> (settingsConfig p = None \<longrightarrow> extractApiKey parse (Some p) appId = '''')
   \<and> (settingsConfig p = Some sc \<and> \<not> truthy sc \<longrightarrow> extractApiKey parse (Some p) appId = '''')
   \<and> (settingsConfig p = Some (JStr txt) \<and> parse txt = None \<longrightarrow>
        extractApiKey parse (Some p) appId = '''')"
proof -
  have "\<exists>s. extractApiKey_run parse provider appId = Inr s"
    by (simp add: extractApiKey_run_def split: option.splits sum.splits)
  then have "\<exists>s. extractApiKey_run parse provider appId = Inr s \<and> extractApiKey parse provider appId = s"
    by (auto simp: extractApiKey_def)
  moreover have "extractApiKey parse None appId = ''''"
    by (simp add: extractApiKey_def extractApiKey_run_def)
  moreover have "settingsConfig p = None \<longrightarrow> extractApiKey parse (Some p) appId = ''''"
    by (simp add: extractApiKey_unparsed parsedConfig_def)
  moreover have "settingsConfig p = Some sc \<and> \<not> truthy sc \<longrightarrow> extractApiKey parse (Some p) appId = ''''"
    by (simp add: extractApiKey_unparsed parsedConfig_def)
  moreover have "settingsConfig p = Some (JStr txt) \<and> parse txt = None \<longrightarrow>
      extractApiKey parse (Some p) appId = ''''"
    by (simp add: extractApiKey_unparsed parsedConfig_def)
  ultimately show ?thesis by blast
qed

theorem extractApiKey_total_witness:
  "extractApiKey exampleParse
     (Some \<lparr>Provider.name = ''p'', websiteUrl = None, settingsConfig = Some (JStr ''{env:'')\<rparr>) ''claude'' = ''''
   \<and> extractApiKey exampleParse
     (Some \<lparr>Provider.name = ''p'', websiteUrl = None, settingsConfig = Some (JStr '''')\<rparr>) ''gemini'' = ''''
   \<and> extractApiKey exampleParse
     (Some \<lparr>Provider.name = ''p'', websiteUrl = None, settingsConfig = None\<rparr>) ''codex'' = ''''"
proof -
  have u: "exampleParse ''{env:'' = None"
    by (simp add: exampleParse_def)
  show ?thesis
    using extractApiKey_total [of exampleParse None "''claude''"
            "\<lparr>Provider.name = ''p'', websiteUrl = None, settingsConfig = Some (JStr ''{env:'')\<rparr>" JNull "''{env:''"]
          extractApiKey_total [of exampleParse None "''gemini''"
            "\<lparr>Provider.name = ''p'', websiteUrl = None, settingsConfig = Some (JStr '''')\<rparr>" "JStr ''''" "''x''"]
          extractApiKey_total [of exampleParse None "''codex''"
            "\<lparr>Provider.name = ''p'', websiteUrl = None, settingsConfig = None\<rparr>" JNull "''x''"]
          u
    by simp
qed

section \<open>Properties of the arithmetic\<close>

lemma bitlen_powi_bounds:
  assumes "0 < a"
  shows "(2::rat) powi (bitlen a - 1) \<le> of_int a" and "of_int a < (2::rat) powi (bitlen a)"
proof -
  have b1: "1 \<le> bitlen a" using assms by (auto simp: bitlen_alt_def)
  have "2 ^ nat (bitlen a - 1) \<le> a" and "a < 2 ^ nat (bitlen a)"
    using bitlen_bounds [OF assms] by auto
  then have "(of_int (2 ^ nat (bitlen a - 1)) :: rat) \<le> of_int a"
    and "(of_int a :: rat) < of_int (2 ^ nat (bitlen a))"
    by (simp_all only: of_int_le_iff of_int_less_iff)
  then show "(2::rat) powi (bitlen a - 1) \<le> of_int a" and "of_int a < (2::rat) powi (bitlen a)"
    using b1 by (simp_all add: power_int_def)
qed

lemma ilog2_bounds:
  assumes "0 < q"
  shows "2 powi (ilog2 q) \<le> q \<and> q < 2 powi (ilog2 q + 1)"
proof -
  obtain a b where ab: "quotient_of q = (a, b)" by (cases "quotient_of q")
  have bpos: "0 < b" using ab quotient_of_denom_pos by blast
  have q: "q = of_int a / of_int b" using ab quotient_of_div by blast
  have apos: "0 < a" using assms bpos q by (simp add: zero_less_divide_iff)
  let ?k = "bitlen a - bitlen b"
  have a2: "of_int a < (2::rat) powi (bitlen a)" and a1: "(2::rat) powi (bitlen a - 1) \<le> of_int a"
    using bitlen_powi_bounds [OF apos] by auto
  have b2: "of_int b < (2::rat) powi (bitlen b)" and b1: "(2::rat) powi (bitlen b - 1) \<le> of_int b"
    using bitlen_powi_bounds [OF bpos] by auto
  have brat: "(0::rat) < of_int b" using bpos by simp
  have upper: "q < 2 powi (?k + 1)"
  proof -
    have "of_int a < (2::rat) powi (?k + 1) * 2 powi (bitlen b - 1)"
      using a2 by (simp flip: power_int_add)
    also have "\<dots> \<le> 2 powi (?k + 1) * of_int b"
      using b1 by (simp add: mult_left_mono)
    finally show ?thesis using brat by (simp add: q pos_divide_less_eq)
  qed
  have lower: "2 powi (?k - 1) < q"
  proof -
    have "(2::rat) powi (?k - 1) * of_int b < 2 powi (?k - 1) * 2 powi (bitlen b)"
      using b2 by (simp add: mult_strict_left_mono)
    also have "\<dots> = 2 powi (bitlen a - 1)"
      by (simp flip: power_int_add)
    also have "\<dots> \<le> of_int a" by (rule a1)
    finally show ?thesis using brat by (simp add: q pos_less_divide_eq)
  qed
  show ?thesis
  proof (cases "2 powi ?k \<le> q")
    case True
    then have "ilog2 q = ?k" by (simp add: ilog2_def ab)
    then show ?thesis using True upper by simp
  next
    case False
    then have "ilog2 q = ?k - 1" by (simp add: ilog2_def ab)
    then show ?thesis using False lower by simp
  qed
qed

lemma roundHalfEven_of_int [simp]: "roundHalfEven (of_int n) = n"
  by (simp add: roundHalfEven_def)

lemma roundHalfEven_nonneg: "0 \<le> q \<Longrightarrow> 0 \<le> roundHalfEven q"
  by (auto simp: roundHalfEven_def Let_def)

lemma fl_nonneg: "0 \<le> q \<Longrightarrow> 0 \<le> fl q"
  by (auto simp: fl_def Let_def intro!: mult_nonneg_nonneg roundHalfEven_nonneg divide_nonneg_nonneg)

lemma fl_int_exact:
  assumes "\<bar>n\<bar> \<le> 2 ^ 53"
  shows "fl (of_int n) = of_int n"
proof (cases "n = 0")
  case True
  then show ?thesis by (simp add: fl_def)
next
  case False
  let ?q = "\<bar>of_int n :: rat\<bar>"
  let ?e = "ilog2 ?q"
  have qpos: "0 < ?q" using False by simp
  have lo: "2 powi ?e \<le> ?q" and hi: "?q < 2 powi (?e + 1)"
    using ilog2_bounds [OF qpos] by auto
  have qle: "?q \<le> 2 powi 53"
  proof -
    have "(of_int \<bar>n\<bar> :: rat) \<le> of_int (2 ^ 53)" using assms by (simp only: of_int_le_iff)
    then show ?thesis by simp
  qed
  have "(2::rat) powi ?e \<le> 2 powi 53" using lo qle by linarith
  then have e53: "?e \<le> 53" using power_int_le_imp_le_exp [of "2::rat" ?e 53] by simp
  show ?thesis
  proof (cases "?e \<le> 52")
    case True
    define k where "k = nat (52 - ?e)"
    have u: "?e - 52 = - int k" using True by (simp add: k_def)
    have "of_int n / (2::rat) powi (?e - 52) = of_int (n * 2 ^ k)"
      by (simp add: u power_int_minus field_simps)
    then have "roundHalfEven (of_int n / (2::rat) powi (?e - 52)) = n * 2 ^ k"
      by (simp only: roundHalfEven_of_int)
    then show ?thesis using False
      by (simp add: fl_def Let_def u power_int_minus)
  next
    case False2: False
    then have e: "?e = 53" using e53 by simp
    have "(2::rat) powi 53 \<le> ?q" using lo by (simp only: e)
    then have "?q = 2 powi 53" using qle by (rule order_antisym [rotated])
    then have "(of_int \<bar>n\<bar> :: rat) = of_int (2 ^ 53)" by simp
    then have "\<bar>n\<bar> = 2 ^ 53" by (simp only: of_int_eq_iff)
    then have "n = 2 ^ 53 \<or> n = - (2 ^ 53)" by linarith
    then show ?thesis using e
      by (auto simp: fl_def Let_def roundHalfEven_def)
  qed
qed

lemma powi2_less_cancel: "(2::rat) powi a < 2 powi b \<Longrightarrow> a < b"
  using power_int_increasing [of b a "2::rat"] by (cases "a < b") auto

lemma ilog2_unique:
  assumes "2 powi e \<le> q" "q < 2 powi (e + 1)"
  shows "ilog2 q = e"
proof -
  have "(0::rat) < 2 powi e" by simp
  then have qpos: "0 < q" using assms(1) by linarith
  have lo: "2 powi (ilog2 q) \<le> q" and hi: "q < 2 powi (ilog2 q + 1)"
    using ilog2_bounds [OF qpos] by auto
  have "(2::rat) powi (ilog2 q) < 2 powi (e + 1)" using lo assms(2) by linarith
  then have a: "ilog2 q < e + 1" by (rule powi2_less_cancel)
  have "(2::rat) powi e < 2 powi (ilog2 q + 1)" using hi assms(1) by linarith
  then have b: "e < ilog2 q + 1" by (rule powi2_less_cancel)
  show ?thesis using a b by simp
qed

lemma roundHalfEven_ge: "of_int k \<le> q \<Longrightarrow> k \<le> roundHalfEven q"
proof -
  assume "of_int k \<le> q"
  then have "k \<le> \<lfloor>q\<rfloor>" by (simp add: le_floor_iff)
  moreover have "\<lfloor>q\<rfloor> \<le> roundHalfEven q" by (simp add: roundHalfEven_def Let_def)
  ultimately show ?thesis by simp
qed

lemma roundHalfEven_le: "q \<le> of_int k \<Longrightarrow> roundHalfEven q \<le> k"
proof -
  assume a: "q \<le> of_int k"
  show ?thesis
  proof (cases "q = of_int k")
    case True
    then show ?thesis by simp
  next
    case False
    then have "q < of_int k" using a by simp
    then have "\<lfloor>q\<rfloor> < k" by (simp add: floor_less_iff)
    then show ?thesis by (auto simp: roundHalfEven_def Let_def)
  qed
qed

lemma roundHalfEven_near: "\<bar>of_int (roundHalfEven q) - q\<bar> \<le> 1 / 2"
proof -
  have "of_int \<lfloor>q\<rfloor> \<le> q" "q < of_int \<lfloor>q\<rfloor> + 1" by linarith+
  then show ?thesis
    by (auto simp: roundHalfEven_def Let_def abs_le_iff)
qed

text \<open>The scaled value of a nonzero rational lies in the top binade of 53 bits.\<close>

lemma scaled_bounds:
  assumes "q \<noteq> 0"
  defines "u \<equiv> ilog2 \<bar>q\<bar> - 52"
  shows "2 ^ 52 \<le> \<bar>q / 2 powi u\<bar>" and "\<bar>q / 2 powi u\<bar> < 2 ^ 53"
proof -
  have qpos: "0 < \<bar>q\<bar>" using assms(1) by simp
  have lo: "2 powi (ilog2 \<bar>q\<bar>) \<le> \<bar>q\<bar>" and hi: "\<bar>q\<bar> < 2 powi (ilog2 \<bar>q\<bar> + 1)"
    using ilog2_bounds [OF qpos] by auto
  have p: "(0::rat) < 2 powi u" by simp
  have e: "ilog2 \<bar>q\<bar> = u + 52" by (simp add: u_def)
  have "(2::rat) ^ 52 * 2 powi u = 2 powi (ilog2 \<bar>q\<bar>)"
    unfolding e by (simp add: power_int_add)
  then have "(2::rat) ^ 52 * 2 powi u \<le> \<bar>q\<bar>" using lo by simp
  then show "2 ^ 52 \<le> \<bar>q / 2 powi u\<bar>"
    using p by (simp add: pos_le_divide_eq abs_divide)
  have "(2::rat) ^ 53 * 2 powi u = 2 powi (ilog2 \<bar>q\<bar> + 1)"
    unfolding e by (simp add: power_int_add)
  then have "\<bar>q\<bar> < (2::rat) ^ 53 * 2 powi u" using hi by simp
  then show "\<bar>q / 2 powi u\<bar> < 2 ^ 53"
    using p by (simp add: pos_divide_less_eq abs_divide)
qed

lemma fl_near:
  assumes "q \<noteq> 0"
  shows "\<bar>fl q - q\<bar> \<le> 2 powi (ilog2 \<bar>q\<bar> - 53)"
proof -
  define u where "u = ilog2 \<bar>q\<bar> - 52"
  have p: "(0::rat) < 2 powi u" by simp
  have "fl q - q = (of_int (roundHalfEven (q / 2 powi u)) - q / 2 powi u) * 2 powi u"
    using assms by (simp add: fl_def Let_def u_def algebra_simps)
  then have "\<bar>fl q - q\<bar> = \<bar>of_int (roundHalfEven (q / 2 powi u)) - q / 2 powi u\<bar> * 2 powi u"
    by (simp add: abs_mult)
  also have "\<dots> \<le> (1 / 2) * 2 powi u"
    using roundHalfEven_near [of "q / 2 powi u"] p by (simp add: mult_right_mono)
  also have "\<dots> = 2 powi (ilog2 \<bar>q\<bar> - 53)"
    by (simp add: u_def power_int_diff)
  finally show ?thesis .
qed

lemma fl_idem: "fl (fl q) = fl q"
proof (cases "q = 0")
  case True
  then show ?thesis by (simp add: fl_def)
next
  case False
  define u where "u = ilog2 \<bar>q\<bar> - 52"
  define r where "r = q / 2 powi u"
  define m where "m = roundHalfEven r"
  have p: "(0::rat) < 2 powi u" by simp
  have flq: "fl q = of_int m * 2 powi u"
    using False by (simp add: fl_def Let_def u_def r_def m_def)
  have rlo: "2 ^ 52 \<le> \<bar>r\<bar>" and rhi: "\<bar>r\<bar> < 2 ^ 53"
    using scaled_bounds [OF False] by (simp_all add: r_def u_def)
  have mb: "2 ^ 52 \<le> \<bar>m\<bar> \<and> \<bar>m\<bar> \<le> 2 ^ 53"
  proof (cases "0 \<le> r")
    case True
    then have "of_int (2 ^ 52) \<le> r" "r \<le> of_int (2 ^ 53)" using rlo rhi by simp_all
    then have "2 ^ 52 \<le> m" "m \<le> 2 ^ 53"
      unfolding m_def by (simp_all only: roundHalfEven_ge roundHalfEven_le)
    then show ?thesis by simp
  next
    case False
    then have "of_int (- (2 ^ 53)) \<le> r" "r \<le> of_int (- (2 ^ 52))" using rlo rhi by simp_all
    then have "- (2 ^ 53) \<le> m" "m \<le> - (2 ^ 52)"
      unfolding m_def by (simp_all only: roundHalfEven_ge roundHalfEven_le)
    then show ?thesis by simp
  qed
  then have m0: "m \<noteq> 0" by auto
  have fl0: "fl q \<noteq> 0" using m0 by (simp add: flq)
  have absfl: "\<bar>fl q\<bar> = of_int \<bar>m\<bar> * 2 powi u"
    by (simp add: flq abs_mult)
  show ?thesis
  proof (cases "\<bar>m\<bar> = 2 ^ 53")
    case True
    then have a: "\<bar>fl q\<bar> = 2 powi (u + 53)"
      by (simp add: absfl power_int_add)
    have "ilog2 \<bar>fl q\<bar> = u + 53"
      by (rule ilog2_unique) (simp_all add: a power_int_add)
    then have u': "ilog2 \<bar>fl q\<bar> - 52 = u + 1" by simp
    have "m = 2 ^ 53 \<or> m = - (2 ^ 53)" using True by linarith
    then have "\<exists>s. m = 2 * s"
      by (auto intro: exI [of _ "2 ^ 52"] exI [of _ "- (2 ^ 52)"])
    then obtain s where s: "m = 2 * s" by blast
    have flq2: "fl q = of_int s * 2 powi (u + 1)"
      by (simp add: flq s power_int_add)
    have d: "fl q / 2 powi (u + 1) = of_int s"
      by (simp add: flq2)
    have "fl (fl q) = of_int (roundHalfEven (fl q / 2 powi (u + 1))) * 2 powi (u + 1)"
      using fl0 by (simp add: fl_def [of "fl q"] Let_def u')
    also have "\<dots> = of_int s * 2 powi (u + 1)"
      by (simp only: d roundHalfEven_of_int)
    also have "\<dots> = fl q"
      by (simp only: flq2)
    finally show ?thesis .
  next
    case False
    then have lt: "\<bar>m\<bar> < 2 ^ 53" using mb by simp
    have "(of_int (2 ^ 52) :: rat) \<le> of_int \<bar>m\<bar>" "(of_int \<bar>m\<bar> :: rat) < of_int (2 ^ 53)"
      using mb lt by (simp_all only: of_int_le_iff of_int_less_iff)
    then have b: "(2::rat) ^ 52 \<le> of_int \<bar>m\<bar>" "(of_int \<bar>m\<bar> :: rat) < 2 ^ 53" by simp_all
    have "ilog2 \<bar>fl q\<bar> = u + 52"
    proof (rule ilog2_unique)
      have "(2::rat) powi (u + 52) = 2 ^ 52 * 2 powi u" by (simp add: power_int_add)
      also have "\<dots> \<le> of_int \<bar>m\<bar> * 2 powi u" using b(1) p by (simp add: mult_right_mono)
      finally show "2 powi (u + 52) \<le> \<bar>fl q\<bar>" by (simp add: absfl)
      have "of_int \<bar>m\<bar> * 2 powi u < (2::rat) ^ 53 * 2 powi u"
        using b(2) p by (simp add: mult_strict_right_mono)
      also have "\<dots> = 2 powi (u + 52 + 1)" by (simp add: power_int_add)
      finally show "\<bar>fl q\<bar> < 2 powi (u + 52 + 1)" by (simp add: absfl)
    qed
    then have u': "ilog2 \<bar>fl q\<bar> - 52 = u" by simp
    have d: "fl q / 2 powi u = of_int m"
      by (simp add: flq)
    have "fl (fl q) = of_int (roundHalfEven (fl q / 2 powi u)) * 2 powi u"
      using fl0 by (simp add: fl_def [of "fl q"] Let_def u')
    also have "\<dots> = of_int m * 2 powi u"
      by (simp only: d roundHalfEven_of_int)
    also have "\<dots> = fl q"
      by (simp only: flq)
    finally show ?thesis .
  qed
qed

lemma isNumber_fl: "isNumber (fl q)"
  by (simp add: isNumber_def fl_idem)

lemma fl_le_double:
  assumes "0 \<le> q"
  shows "fl q \<le> 2 * q"
proof (cases "q = 0")
  case True
  then show ?thesis by (simp add: fl_def)
next
  case False
  then have qpos: "0 < \<bar>q\<bar>" by simp
  have "fl q - q \<le> \<bar>fl q - q\<bar>" by simp
  also have "\<dots> \<le> 2 powi (ilog2 \<bar>q\<bar> - 53)" using fl_near [OF False] .
  also have "\<dots> \<le> 2 powi (ilog2 \<bar>q\<bar>)" by (rule power_int_increasing) simp_all
  also have "\<dots> \<le> \<bar>q\<bar>" using ilog2_bounds [OF qpos] by simp
  also have "\<dots> = q" using assms by simp
  finally show ?thesis by simp
qed

lemma isCount_add: "isCount x \<Longrightarrow> isCount y \<Longrightarrow> isCount (x + y)"
  unfolding isCount_def by (metis add_nonneg_nonneg floor_of_int of_int_add)

lemma js_add_count:
  assumes "isCount x" "isCount y" "x + y \<le> 2 ^ 53"
  shows "js_add x y = x + y"
proof -
  obtain n where n: "x + y = of_int n" and n0: "0 \<le> n"
    using isCount_add [OF assms(1,2)] unfolding isCount_def
    by (metis zero_le_floor)
  have "(of_int n :: rat) \<le> of_int (2 ^ 53)" using assms(3) n by simp
  then have "n \<le> 2 ^ 53" by (simp only: of_int_le_iff)
  then have "\<bar>n\<bar> \<le> 2 ^ 53" using n0 by simp
  then show ?thesis unfolding js_add_def n by (rule fl_int_exact)
qed

lemma foldl_js_add_exact:
  assumes "\<forall>x \<in> set xs. isCount x" "isCount a" "a + sum_list xs \<le> 2 ^ 53"
  shows "foldl js_add a xs = a + sum_list xs"
  using assms
proof (induction xs arbitrary: a)
  case Nil
  then show ?case by simp
next
  case (Cons x xs)
  have nn: "0 \<le> sum_list xs"
    using Cons.prems(1) by (auto intro!: sum_list_nonneg simp: isCount_def)
  have s: "a + x \<le> 2 ^ 53" using Cons.prems(3) nn by simp
  have x: "isCount x" using Cons.prems(1) by simp
  have e: "js_add a x = a + x" using js_add_count [OF Cons.prems(2) x s] .
  have "foldl js_add (a + x) xs = (a + x) + sum_list xs"
    using Cons.prems by (intro Cons.IH) (auto simp: isCount_add add.assoc)
  then show ?case by (simp add: e add.assoc)
qed

section \<open>Properties of the text of a number\<close>

lemma length_lastDigits [simp]: "length (lastDigits f b) = f"
  by (induction f arbitrary: b) simp_all

lemma digits_small: "n < 10 \<Longrightarrow> digits n = [digitChar n]"
  by (simp add: digits.simps)

lemma digits_large: "10 \<le> n \<Longrightarrow> digits n = digits (n div 10) @ [digitChar (n mod 10)]"
  by (subst digits.simps) simp

lemma length_digits_pos: "0 < length (digits n)"
  by (cases "n < 10") (simp_all add: digits_small digits_large)

lemma div10_less_iff: "(n::int) div 10 < m \<longleftrightarrow> n < m * 10"
  by presburger

lemma length_digits_le:
  "1 \<le> k \<Longrightarrow> length (digits n) \<le> k \<longleftrightarrow> n < 10 ^ k"
proof (induction n arbitrary: k rule: digits.induct)
  case (1 n)
  show ?case
  proof (cases "n < 10")
    case True
    have "(10::int) \<le> 10 ^ k" using "1.prems" by (metis power_one_right power_increasing one_le_numeral)
    then show ?thesis using True "1.prems" by (simp add: digits_small)
  next
    case False
    then have large: "digits n = digits (n div 10) @ [digitChar (n mod 10)]"
      by (simp add: digits_large)
    show ?thesis
    proof (cases "k = 1")
      case True
      then show ?thesis using False length_digits_pos [of "n div 10"] by (simp add: large)
    next
      case k: False
      then obtain j where j: "k = Suc j" "1 \<le> j" using "1.prems" by (cases k) auto
      have "length (digits (n div 10)) \<le> j \<longleftrightarrow> n div 10 < 10 ^ j"
        using "1.IH" [OF False j(2)] .
      moreover have "n div 10 < 10 ^ j \<longleftrightarrow> n < 10 ^ Suc j"
        by (simp add: div10_less_iff mult.commute)
      ultimately show ?thesis by (simp add: large j)
    qed
  qed
qed

lemma digits_split:
  "0 < a \<Longrightarrow> 0 \<le> b \<Longrightarrow> b < 10 ^ f \<Longrightarrow> digits (a * 10 ^ f + b) = digits a @ lastDigits f b"
proof (induction f arbitrary: b)
  case 0
  then have "b = 0" by simp
  then show ?case by simp
next
  case (Suc f)
  let ?n = "a * 10 ^ Suc f + b"
  have "10 * 1 \<le> 10 * (a * 10 ^ f)" using Suc.prems(1) by (intro mult_left_mono) (simp_all add: mult_le_cancel_left1 Suc_le_eq int_one_le_iff_zero_less)
  then have big: "10 \<le> ?n" using Suc.prems(2) by (simp add: algebra_simps)
  have n: "?n = (a * 10 ^ f) * 10 + b" by simp
  have d: "?n div 10 = a * 10 ^ f + b div 10" unfolding n by (simp add: div_mult_self3 ac_simps)
  have m: "?n mod 10 = b mod 10" unfolding n by simp
  have "b div 10 < 10 ^ f" using Suc.prems(3) by (simp add: div10_less_iff mult.commute)
  moreover have "0 \<le> b div 10" using Suc.prems(2) by simp
  ultimately have "digits (a * 10 ^ f + b div 10) = digits a @ lastDigits f (b div 10)"
    using Suc.IH Suc.prems(1) by blast
  then show ?case
    by (simp only: digits_large [OF big] d m lastDigits.simps append_assoc)
qed

lemma digitChar_0 [simp]: "digitChar 0 = CHR ''0''"
  by (simp add: digitChar_def)

lemma digits_0 [simp]: "digits 0 = ''0''"
  by (simp add: digits_small)

lemma lastDigits_zero: "lastDigits f 0 = replicate f CHR ''0''"
  by (induction f) (simp_all add: replicate_append_same)

lemma lastDigits_pad:
  "0 \<le> n \<Longrightarrow> n < 10 ^ f \<Longrightarrow> 1 \<le> f \<Longrightarrow>
   lastDigits f n = replicate (f - length (digits n)) CHR ''0'' @ digits n"
proof (induction f arbitrary: n)
  case 0
  then show ?case by simp
next
  case (Suc f)
  show ?case
  proof (cases "n < 10")
    case True
    then have "n div 10 = 0" "n mod 10 = n" using Suc.prems(1) by simp_all
    then show ?thesis using True by (simp add: lastDigits_zero digits_small)
  next
    case False
    then have large: "digits n = digits (n div 10) @ [digitChar (n mod 10)]"
      by (simp add: digits_large)
    have f1: "1 \<le> f"
    proof (rule ccontr)
      assume "\<not> 1 \<le> f"
      then have "f = 0" by simp
      then show False using Suc.prems(2) False by simp
    qed
    have "n div 10 < 10 ^ f" using Suc.prems(2) by (simp add: div10_less_iff mult.commute)
    moreover have "0 \<le> n div 10" using Suc.prems(1) by simp
    ultimately have ih: "lastDigits f (n div 10) =
        replicate (f - length (digits (n div 10))) CHR ''0'' @ digits (n div 10)"
      using Suc.IH f1 by blast
    show ?thesis by (simp add: ih large)
  qed
qed

lemma toFixed_decimal:
  assumes "\<bar>x\<bar> < 10 ^ 21"
  shows "toFixed x f =
           (if x < 0 then ''-'' else '''') @ decimalText \<lfloor>\<bar>x\<bar> * 10 ^ f + 1 / 2\<rfloor> f"
proof -
  define n where "n = \<lfloor>\<bar>x\<bar> * 10 ^ f + 1 / 2\<rfloor>"
  have n0: "0 \<le> n" unfolding n_def by (simp add: zero_le_floor)
  have small: "\<not> 10 ^ 21 \<le> \<bar>x\<bar>" using assms by simp
  have body: "(if f \<noteq> 0 then
                 (let k = length (digits n);
                      m = (if k \<le> f then replicate (f + 1 - k) CHR ''0'' @ digits n else digits n);
                      k = (if k \<le> f then f + 1 else k)
                  in take (k - f) m @ ''.'' @ drop (k - f) m)
               else digits n) = decimalText n f"
  proof (cases "f = 0")
    case True
    then show ?thesis by (simp add: decimalText_def)
  next
    case False
    then have f1: "1 \<le> f" by simp
    show ?thesis
    proof (cases "n < 10 ^ f")
      case True
      then have k: "length (digits n) \<le> f" using length_digits_le [OF f1] by simp
      have d: "n div 10 ^ f = 0" "n mod 10 ^ f = n" using True n0 by simp_all
      obtain j where j: "f + 1 - length (digits n) = Suc j" "f - length (digits n) = j"
        using k by (metis Suc_diff_le Suc_eq_plus1)
      show ?thesis
        using False k
        by (simp add: decimalText_def d Let_def lastDigits_pad [OF n0 True f1] j)
    next
      case big: False
      then have k: "\<not> length (digits n) \<le> f" using length_digits_le [OF f1] by simp
      define a where "a = n div 10 ^ f"
      define b where "b = n mod 10 ^ f"
      have n: "n = a * 10 ^ f + b" unfolding a_def b_def by (rule div_mult_mod_eq [symmetric])
      have b: "0 \<le> b" "b < 10 ^ f" by (simp_all add: b_def)
      have a: "0 < a" using big n0 unfolding a_def by (simp add: pos_imp_zdiv_pos_iff)
      have s: "digits n = digits a @ lastDigits f b"
        unfolding n using digits_split [OF a b] .
      show ?thesis
        using False k
        by (simp add: decimalText_def Let_def s flip: a_def b_def)
    qed
  qed
  show ?thesis
    using small body by (simp add: toFixed_def Let_def flip: n_def)
qed

lemma roundHalfUp_near:
  "\<bar>of_int \<lfloor>y * 10 ^ f + 1 / 2\<rfloor> / 10 ^ f - y\<bar> \<le> 1 / (2 * 10 ^ f)" for y :: rat
proof -
  define z where "z = y * 10 ^ f"
  define d where "d = (10::rat) ^ f"
  have p: "0 < d" by (simp add: d_def)
  have "of_int \<lfloor>z + 1 / 2\<rfloor> \<le> z + 1 / 2" "z + 1 / 2 < of_int \<lfloor>z + 1 / 2\<rfloor> + 1"
    by linarith+
  then have h: "\<bar>of_int \<lfloor>z + 1 / 2\<rfloor> - z\<bar> \<le> 1 / 2" by linarith
  have "of_int \<lfloor>z + 1 / 2\<rfloor> / d - y = (of_int \<lfloor>z + 1 / 2\<rfloor> - z) / d"
    using p by (simp add: z_def d_def diff_divide_distrib)
  then have "\<bar>of_int \<lfloor>z + 1 / 2\<rfloor> / d - y\<bar> = \<bar>of_int \<lfloor>z + 1 / 2\<rfloor> - z\<bar> / d"
    using p by (simp only: abs_divide abs_of_pos)
  also have "\<dots> \<le> (1 / 2) / d"
    using h p by (simp only: divide_right_mono less_imp_le)
  also have "\<dots> = 1 / (2 * d)" by simp
  finally show ?thesis by (simp only: z_def d_def)
qed

subsection \<open>Shortest digits\<close>

lemma length_digits_bounds:
  assumes "1 \<le> m"
  shows "10 ^ (length (digits m) - 1) \<le> m" and "m < 10 ^ length (digits m)"
proof -
  let ?L = "length (digits m)"
  have L: "1 \<le> ?L" using length_digits_pos [of m] by (simp add: Suc_le_eq)
  show "m < 10 ^ ?L" using length_digits_le [OF L, of m] by simp
  show "10 ^ (?L - 1) \<le> m"
  proof (cases "?L = 1")
    case True
    then show ?thesis using assms by simp
  next
    case False
    then have a: "1 \<le> ?L - 1" and b: "\<not> ?L \<le> ?L - 1" using L by simp_all
    have "\<not> m < 10 ^ (?L - 1)" using length_digits_le [OF a, of m] b by blast
    then show ?thesis by simp
  qed
qed

lemma roundHalfEven_cases: "roundHalfEven t = \<lfloor>t\<rfloor> \<or> roundHalfEven t = \<lfloor>t\<rfloor> + 1"
  by (simp add: roundHalfEven_def Let_def)

lemma digits_times_power:
  assumes "0 < s"
  shows "digits (s * 10 ^ z) = digits s @ replicate z CHR ''0''"
  using digits_split [of s 0 z] assms by (simp add: lastDigits_zero)

text \<open>The exponent \<open>n\<close> of a positive number: \<open>10 powi (n - 1) \<le> x < 10 powi n\<close>.\<close>

lemma decimalExponent_bounds:
  assumes "0 < x"
  shows "10 powi (decimalExponent x - 1) \<le> x" and "x < 10 powi decimalExponent x"
proof -
  have "10 powi (decimalExponent x - 1) \<le> x \<and> x < 10 powi decimalExponent x"
  proof (cases "1 \<le> x")
    case True
    define m where "m = \<lfloor>x\<rfloor>"
    define L where "L = length (digits m)"
    have m1: "1 \<le> m" using True by (simp add: m_def)
    have L1: "1 \<le> L" using length_digits_pos [of m] by (simp add: L_def Suc_le_eq)
    have b: "10 ^ (L - 1) \<le> m" "m < 10 ^ L"
      using length_digits_bounds [OF m1] by (simp_all add: L_def)
    have n: "decimalExponent x = int L" using True by (simp add: decimalExponent_def m_def L_def)
    have e: "int L - 1 = int (L - 1)" using L1 by simp
    have "(of_int (10 ^ (L - 1)) :: rat) \<le> of_int m" using b(1) by (simp only: of_int_le_iff)
    also have "\<dots> \<le> x" by (simp add: m_def)
    finally have lo: "(10::rat) ^ (L - 1) \<le> x" by simp
    have "m + 1 \<le> 10 ^ L" using b(2) by simp
    then have "(of_int (m + 1) :: rat) \<le> of_int (10 ^ L)" by (simp only: of_int_le_iff)
    moreover have "x < of_int (m + 1)" unfolding m_def by linarith
    ultimately have hi: "x < (10::rat) ^ L" by simp
    show ?thesis unfolding n e using lo hi by simp
  next
    case False
    then have x1: "x < 1" by simp
    define c where "c = \<lceil>1 / x\<rceil> - 1"
    define D where "D = length (digits c)"
    have y1: "1 < 1 / x" using assms x1 by simp
    have cy: "of_int c < 1 / x" "1 / x \<le> of_int c + 1" unfolding c_def by linarith+
    have "1 < \<lceil>1 / x\<rceil>" using y1 by (simp add: less_ceiling_iff)
    then have c1: "1 \<le> c" by (simp add: c_def)
    have D1: "1 \<le> D" using length_digits_pos [of c] by (simp add: D_def Suc_le_eq)
    have b: "10 ^ (D - 1) \<le> c" "c < 10 ^ D"
      using length_digits_bounds [OF c1] by (simp_all add: D_def)
    have n: "decimalExponent x = 1 - int D" using False by (simp add: decimalExponent_def c_def D_def)
    have "c + 1 \<le> 10 ^ D" using b(2) by simp
    then have "(of_int (c + 1) :: rat) \<le> of_int (10 ^ D)" by (simp only: of_int_le_iff)
    then have "1 / x \<le> (10::rat) ^ D" using cy(2) by simp
    then have "1 \<le> 10 ^ D * x" using assms by (simp add: pos_divide_le_eq)
    then have lo: "1 / 10 ^ D \<le> x" by (simp add: pos_divide_le_eq mult.commute)
    have "(of_int (10 ^ (D - 1)) :: rat) \<le> of_int c" using b(1) by (simp only: of_int_le_iff)
    then have "(of_int (10 ^ (D - 1)) :: rat) < 1 / x" using cy(1) by (rule le_less_trans)
    moreover have "(of_int (10 ^ (D - 1)) :: rat) = 10 ^ (D - 1)" by simp
    ultimately have "(10::rat) ^ (D - 1) < 1 / x" by (simp only:)
    then have "10 ^ (D - 1) * x < 1" using assms by (simp add: pos_less_divide_eq)
    then have hi: "x < 1 / 10 ^ (D - 1)" by (simp add: pos_less_divide_eq mult.commute)
    have p1: "(10::rat) powi (1 - int D - 1) = 1 / 10 ^ D"
      by (simp add: power_int_def nat_minus_as_int field_simps)
    have "1 - int D = - int (D - 1)" using D1 by simp
    then have "(10::rat) powi (1 - int D) = 10 powi (- int (D - 1))" by (simp only:)
    also have "\<dots> = 1 / 10 ^ (D - 1)" by (simp add: power_int_minus field_simps)
    finally have p2: "(10::rat) powi (1 - int D) = 1 / 10 ^ (D - 1)" .
    show ?thesis unfolding n p1 p2 using lo hi by simp
  qed
  then show "10 powi (decimalExponent x - 1) \<le> x" and "x < 10 powi decimalExponent x"
    by simp_all
qed

lemma pickDigits_cases:
  assumes "hasDigits x n k"
  shows "readsBack x n k (pickDigits x n k) \<and>
         (pickDigits x n k = \<lfloor>x / 10 powi (n - int k)\<rfloor> \<or>
          pickDigits x n k = \<lfloor>x / 10 powi (n - int k)\<rfloor> + 1)"
  using assms roundHalfEven_cases [of "x / 10 powi (n - int k)"]
  by (auto simp: hasDigits_def pickDigits_def Let_def)

text \<open>The digits found before 17 read back as the number.\<close>

lemma shortestDigits_readsBack:
  assumes "find (hasDigits x (decimalExponent x)) [1..<17] = Some k"
  shows "readsBack x (decimalExponent x) k (pickDigits x (decimalExponent x) k)"
proof -
  have "hasDigits x (decimalExponent x) k"
    using assms unfolding find_Some_iff by blast
  then show ?thesis using pickDigits_cases by blast
qed

lemma toFixed_large:
  assumes "10 ^ 21 \<le> x"
  shows "toFixed x f = Number_toString x"
proof -
  have "(0::rat) \<le> 10 ^ 21" by simp
  then have "0 \<le> x" using assms by (rule order_trans)
  then have "\<not> x < 0" "\<bar>x\<bar> = x" by simp_all
  then show ?thesis using assms by (simp add: toFixed_def Let_def)
qed

text \<open>
  An integer below \<open>10 ^ 15\<close> in magnitude is written with its decimal digits: every
  candidate is an integer that is a number, so the shortest digits that read back are the
  digits without the zeros at their end, and the zeros are written after them.
\<close>

lemma readsBack_int:
  assumes "0 < m" "m < 10 ^ 15" "k \<le> length (digits m)" "0 \<le> s"
    and "s \<le> m div 10 ^ (length (digits m) - k) + 1"
  shows "readsBack (of_int m) (int (length (digits m))) k s \<longleftrightarrow> s * 10 ^ (length (digits m) - k) = m"
proof -
  let ?L = "length (digits m)"
  let ?j = "?L - k"
  have L15: "?L \<le> 15"
    using length_digits_le [of 15 m] assms(2) by simp
  have e: "int ?L - int k = int ?j" using assms(3) by simp
  have p: "(10::rat) powi (int ?L - int k) = of_int (10 ^ ?j)"
    unfolding e by (simp add: power_int_def)
  have v: "of_int s * (10::rat) powi (int ?L - int k) = of_int (s * 10 ^ ?j)"
    unfolding p by simp
  define d :: int where "d = 10 ^ ?j"
  have dpos: "0 < d" by (simp add: d_def)
  have "m div d * d + m mod d = m" by simp
  moreover have "0 \<le> m mod d" using dpos by simp
  ultimately have "m div d * d \<le> m" by linarith
  moreover have "s * d \<le> (m div d + 1) * d"
    using assms(5) dpos unfolding d_def by (intro mult_right_mono) simp_all
  ultimately have "s * d \<le> m + d" by (simp add: distrib_right)
  moreover have "d \<le> 10 ^ 15"
    unfolding d_def using L15 by (intro power_increasing) simp_all
  ultimately have "s * 10 ^ ?j \<le> 2 * 10 ^ 15" using assms(2) by (simp add: d_def)
  then have "s * 10 ^ ?j \<le> 2 ^ 53" by simp
  moreover have "0 \<le> s * 10 ^ ?j" using assms(4) by simp
  ultimately have "\<bar>s * 10 ^ ?j\<bar> \<le> 2 ^ 53" by simp
  then have "fl (of_int (s * 10 ^ ?j)) = of_int (s * 10 ^ ?j)" by (rule fl_int_exact)
  then show ?thesis
    unfolding readsBack_def v by (simp only: of_int_eq_iff)
qed

lemma find_upt_first:
  assumes "P L" "1 \<le> L" "L < 17"
  shows "\<exists>k. find P [1..<17] = Some k \<and> P k \<and> 1 \<le> k \<and> k \<le> L"
proof -
  have "L \<in> set [1..<17]" using assms(2,3) by simp
  then have "find P [1..<17] \<noteq> None" using assms(1) by (auto simp: find_None_iff)
  then obtain k where k: "find P [1..<17] = Some k" by blast
  then obtain i where i: "i < length [1..<17]" "P ([1..<17] ! i)" "k = [1..<17] ! i"
      "\<forall>j<i. \<not> P ([1..<17] ! j)"
    unfolding find_Some_iff by blast
  have ki: "k = 1 + i" using i(1,3) by simp
  have "k \<le> L"
  proof (rule ccontr)
    assume "\<not> k \<le> L"
    then have "L - 1 < i" using ki assms(2) by simp
    moreover have "[1..<17] ! (L - 1) = L" using assms(2,3) by simp
    ultimately show False using i(4) assms(1) by metis
  qed
  then show ?thesis using k i(2,3) ki by auto
qed

lemma shortestDigits_int:
  assumes "0 < m" "m < 10 ^ 15"
  shows "\<exists>s k. shortestDigits (of_int m) = (s, k, int (length (digits m))) \<and>
           1 \<le> k \<and> k \<le> length (digits m) \<and> 0 < s \<and> s * 10 ^ (length (digits m) - k) = m"
proof -
  let ?L = "length (digits m)"
  let ?x = "of_int m :: rat"
  have m1: "1 \<le> m" using assms(1) by simp
  have L1: "1 \<le> ?L" using length_digits_pos [of m] by (simp add: Suc_le_eq)
  have L15: "?L \<le> 15" using length_digits_le [of 15 m] assms(2) by simp
  have mL: "m < 10 ^ ?L" using length_digits_bounds(2) [OF m1] .
  have n: "decimalExponent ?x = int ?L"
    using m1 by (simp add: decimalExponent_def)
  have PL: "hasDigits ?x (int ?L) ?L"
  proof -
    have "readsBack ?x (int ?L) ?L m \<longleftrightarrow> m * 10 ^ (?L - ?L) = m"
      using assms by (intro readsBack_int) simp_all
    then show ?thesis by (simp add: hasDigits_def)
  qed
  obtain k where k: "find (hasDigits ?x (int ?L)) [1..<17] = Some k" "hasDigits ?x (int ?L) k"
      "1 \<le> k" "k \<le> ?L"
    using find_upt_first [of "hasDigits ?x (int ?L)" ?L] PL L1 L15 by auto
  define j where "j = ?L - k"
  define s where "s = pickDigits ?x (int ?L) k"
  have e: "int ?L - int k = int j" using k(4) by (simp add: j_def)
  have t: "?x / 10 powi (int ?L - int k) = of_int m / of_int (10 ^ j)"
    unfolding e by (simp add: power_int_def)
  have lo: "\<lfloor>?x / 10 powi (int ?L - int k)\<rfloor> = m div 10 ^ j"
    unfolding t by (rule floor_divide_of_int_eq)
  have rb: "readsBack ?x (int ?L) k s" and sc: "s = m div 10 ^ j \<or> s = m div 10 ^ j + 1"
    using pickDigits_cases [OF k(2)] by (simp_all add: s_def lo)
  have lo0: "0 \<le> m div 10 ^ j" using assms(1) by (simp add: pos_imp_zdiv_nonneg_iff)
  have s0: "0 \<le> s" and s1: "s \<le> m div 10 ^ j + 1" using sc lo0 by auto
  have "readsBack ?x (int ?L) k s \<longleftrightarrow> s * 10 ^ (?L - k) = m"
    using assms k(4) s0 s1 by (intro readsBack_int) (simp_all add: j_def)
  then have sm: "s * 10 ^ j = m" using rb by (simp add: j_def)
  have spos: "0 < s"
  proof (rule ccontr)
    assume "\<not> 0 < s"
    then have "s = 0" using s0 by simp
    then show False using sm assms(1) by simp
  qed
  have ne: "s \<noteq> 10 ^ k"
  proof
    assume "s = 10 ^ k"
    then have "m = 10 ^ (k + j)" using sm by (simp add: power_add)
    moreover have "k + j = ?L" using k(4) by (simp add: j_def)
    ultimately show False using mL by simp
  qed
  have k1: "find (hasDigits ?x (int ?L)) [Suc 0..<17] = Some k" using k(1) by simp
  have "shortestDigits ?x = (s, k, int ?L)"
    using ne by (simp add: shortestDigits_def n k1 s_def Let_def)
  then show ?thesis using k(3,4) spos sm by (auto simp: j_def)
qed

lemma Number_toString_pos_int:
  assumes "0 < m" "m < 10 ^ 15"
  shows "Number_toString (of_int m) = digits m"
proof -
  let ?L = "length (digits m)"
  obtain s k where sk: "shortestDigits (of_int m) = (s, k, int ?L)" "1 \<le> k" "k \<le> ?L" "0 < s"
      "s * 10 ^ (?L - k) = m"
    using shortestDigits_int [OF assms] by blast
  have L15: "?L \<le> 15" using length_digits_le [of 15 m] assms(2) by simp
  have "numberText s k (int ?L) = digits s @ replicate (?L - k) CHR ''0''"
    using sk(3) L15 by (simp add: numberText_def nat_diff_distrib')
  also have "\<dots> = digits (s * 10 ^ (?L - k))"
    using digits_times_power [OF sk(4)] by simp
  finally have "numberText s k (int ?L) = digits m" by (simp only: sk(5))
  then show ?thesis
    using assms(1) sk(1) by (simp add: Number_toString_def)
qed

lemma Number_toString_int:
  assumes "- (10 ^ 15) < k" "k < 10 ^ 15"
  shows "Number_toString (of_int k) = (if k < 0 then ''-'' else '''') @ digits \<bar>k\<bar>"
proof (cases "k = 0")
  case True
  then show ?thesis by (simp add: Number_toString_def)
next
  case False
  then have a: "0 < \<bar>k\<bar>" "\<bar>k\<bar> < 10 ^ 15" using assms by simp_all
  have "Number_toString (of_int \<bar>k\<bar>) = digits \<bar>k\<bar>"
    using Number_toString_pos_int [OF a] .
  moreover have "\<bar>of_int k :: rat\<bar> = of_int \<bar>k\<bar>" by simp
  ultimately show ?thesis
    using False a(1) by (simp add: Number_toString_def del: of_int_abs)
qed

section \<open>The shortest digits are those of the language standard\<close>

text \<open>
  Rounding to binary64 is monotone, and a value near enough to a number rounds to it. With
  these the digits of \<open>shortestDigits\<close> are shown to be what the standard asks for.
\<close>

lemma roundHalfEven_mono:
  assumes "a \<le> b"
  shows "roundHalfEven a \<le> roundHalfEven b"
proof (cases "\<lfloor>a\<rfloor> = \<lfloor>b\<rfloor>")
  case True
  have "a - of_int \<lfloor>a\<rfloor> \<le> b - of_int \<lfloor>b\<rfloor>" using assms True by simp
  then show ?thesis using True by (auto simp: roundHalfEven_def Let_def)
next
  case False
  have "\<lfloor>a\<rfloor> \<le> \<lfloor>b\<rfloor>" using assms by (rule floor_mono)
  then have "\<lfloor>a\<rfloor> + 1 \<le> \<lfloor>b\<rfloor>" using False by simp
  moreover have "roundHalfEven a \<le> \<lfloor>a\<rfloor> + 1" using roundHalfEven_cases [of a] by auto
  moreover have "\<lfloor>b\<rfloor> \<le> roundHalfEven b" using roundHalfEven_cases [of b] by auto
  ultimately show ?thesis by linarith
qed

lemma roundHalfEven_unique:
  assumes "\<bar>t - of_int m\<bar> < 1 / 2"
  shows "roundHalfEven t = m"
proof -
  have a: "of_int m - 1 / 2 < t" "t < of_int m + 1 / 2" using assms by linarith+
  show ?thesis
  proof (cases "of_int m \<le> t")
    case True
    then have f: "\<lfloor>t\<rfloor> = m" using a(2) by (intro floor_unique) linarith+
    show ?thesis using a(2) by (simp add: roundHalfEven_def Let_def f)
  next
    case False
    then have f: "\<lfloor>t\<rfloor> = m - 1" using a(1) by (intro floor_unique) simp_all
    have "1 / 2 < t - of_int (m - 1)" using a(1) by simp
    then show ?thesis by (simp add: roundHalfEven_def Let_def f)
  qed
qed

lemma fl_pos_form:
  assumes "0 < q"
  shows "fl q = of_int (roundHalfEven (q / 2 powi (ilog2 q - 52))) * 2 powi (ilog2 q - 52)"
  using assms by (simp add: fl_def Let_def)

lemma scaled_pos_bounds:
  assumes "0 < q"
  shows "2 ^ 52 \<le> q / 2 powi (ilog2 q - 52)" and "q / 2 powi (ilog2 q - 52) < 2 ^ 53"
proof -
  have q: "q \<noteq> 0" "\<bar>q\<bar> = q" using assms by simp_all
  have p: "\<bar>q / 2 powi (ilog2 q - 52)\<bar> = q / 2 powi (ilog2 q - 52)"
    using assms by (simp add: abs_divide)
  show "2 ^ 52 \<le> q / 2 powi (ilog2 q - 52)" and "q / 2 powi (ilog2 q - 52) < 2 ^ 53"
    using scaled_bounds [OF q(1)] unfolding q(2) p by simp_all
qed

lemma powi_52: "(2::rat) ^ 52 * 2 powi (e - 52) = 2 powi e"
proof -
  have "(2::rat) powi e = 2 powi (52 + (e - 52))" by simp
  also have "\<dots> = 2 powi 52 * 2 powi (e - 52)" by (rule power_int_add) simp
  finally show ?thesis by simp
qed

lemma powi_53: "(2::rat) ^ 53 * 2 powi (e - 52) = 2 powi (e + 1)"
proof -
  have "e + 1 = 53 + (e - 52)" by simp
  then have "(2::rat) powi (e + 1) = 2 powi (53 + (e - 52))" by (simp only:)
  also have "\<dots> = 2 powi 53 * 2 powi (e - 52)" by (rule power_int_add) simp
  finally show ?thesis by simp
qed

lemma fl_pos_bounds:
  assumes "0 < q"
  shows "2 powi (ilog2 q) \<le> fl q" and "fl q \<le> 2 powi (ilog2 q + 1)"
proof -
  define u where "u = ilog2 q - 52"
  define R where "R = roundHalfEven (q / 2 powi u)"
  have p: "(0::rat) < 2 powi u" by simp
  have f: "fl q = of_int R * 2 powi u" using fl_pos_form [OF assms] by (simp add: R_def u_def)
  have "(of_int (2 ^ 52) :: rat) \<le> q / 2 powi u"
    using scaled_pos_bounds(1) [OF assms] by (simp add: u_def)
  then have "2 ^ 52 \<le> R" unfolding R_def by (rule roundHalfEven_ge)
  then have "(of_int (2 ^ 52) :: rat) \<le> of_int R" by (simp only: of_int_le_iff)
  then have "(2::rat) ^ 52 * 2 powi u \<le> of_int R * 2 powi u"
    using p by (intro mult_right_mono) simp_all
  then show "2 powi (ilog2 q) \<le> fl q" unfolding f u_def powi_52 .
  have "q / 2 powi u \<le> (of_int (2 ^ 53) :: rat)"
    using scaled_pos_bounds(2) [OF assms] by (simp add: u_def)
  then have "R \<le> 2 ^ 53" unfolding R_def by (rule roundHalfEven_le)
  then have "(of_int R :: rat) \<le> of_int (2 ^ 53)" by (simp only: of_int_le_iff)
  then have "of_int R * 2 powi u \<le> (2::rat) ^ 53 * 2 powi u"
    using p by (intro mult_right_mono) simp_all
  then show "fl q \<le> 2 powi (ilog2 q + 1)" unfolding f u_def powi_53 .
qed

lemma fl_mono_pos:
  assumes "0 < a" "a \<le> b"
  shows "fl a \<le> fl b"
proof -
  have b: "0 < b" using assms by simp
  have "2 powi (ilog2 a) \<le> a" using ilog2_bounds [OF assms(1)] by simp
  also have "a \<le> b" by fact
  also have "b < 2 powi (ilog2 b + 1)" using ilog2_bounds [OF b] by simp
  finally have "ilog2 a < ilog2 b + 1" by (rule powi2_less_cancel)
  then consider "ilog2 a = ilog2 b" | "ilog2 a + 1 \<le> ilog2 b" by linarith
  then show ?thesis
  proof cases
    case 1
    define u where "u = ilog2 b - 52"
    have p: "(0::rat) < 2 powi u" by simp
    have "a / 2 powi u \<le> b / 2 powi u" using assms(2) p by (simp add: divide_right_mono)
    then have "roundHalfEven (a / 2 powi u) \<le> roundHalfEven (b / 2 powi u)"
      by (rule roundHalfEven_mono)
    then have "(of_int (roundHalfEven (a / 2 powi u)) :: rat) \<le> of_int (roundHalfEven (b / 2 powi u))"
      by (simp only: of_int_le_iff)
    then have "(of_int (roundHalfEven (a / 2 powi u)) :: rat) * 2 powi u
        \<le> of_int (roundHalfEven (b / 2 powi u)) * 2 powi u"
      using p by (intro mult_right_mono) simp_all
    then show ?thesis
      unfolding fl_pos_form [OF assms(1)] fl_pos_form [OF b] 1 u_def .
  next
    case 2
    have "fl a \<le> 2 powi (ilog2 a + 1)" using fl_pos_bounds(2) [OF assms(1)] .
    also have "\<dots> \<le> 2 powi (ilog2 b)" using 2 by (intro power_int_increasing) simp_all
    also have "\<dots> \<le> fl b" using fl_pos_bounds(1) [OF b] .
    finally show ?thesis .
  qed
qed

lemma number_form:
  assumes "isNumber x" "0 < x"
  shows "\<exists>M. x = of_int M * 2 powi (ilog2 x - 52) \<and> 2 ^ 52 \<le> M \<and> M < 2 ^ 53"
proof -
  define u where "u = ilog2 x - 52"
  define M where "M = roundHalfEven (x / 2 powi u)"
  have p: "(0::rat) < 2 powi u" by simp
  have "fl x = of_int M * 2 powi u" using fl_pos_form [OF assms(2)] by (simp add: M_def u_def)
  then have x: "x = of_int M * 2 powi u" using assms(1) by (simp add: isNumber_def)
  then have s: "x / 2 powi u = of_int M" using p by simp
  have "(of_int (2 ^ 52) :: rat) \<le> of_int M" "(of_int M :: rat) < of_int (2 ^ 53)"
    using scaled_pos_bounds [OF assms(2)] unfolding u_def [symmetric] s by simp_all
  then have "2 ^ 52 \<le> M" "M < 2 ^ 53" by (simp_all only: of_int_le_iff of_int_less_iff)
  then show ?thesis using x unfolding u_def by blast
qed

lemma powi_split: "b \<noteq> 0 \<Longrightarrow> (b::rat) powi e = b ^ j * b powi (e - int j)"
proof -
  assume b: "b \<noteq> 0"
  have "e = int j + (e - int j)" by simp
  then have "b powi e = b powi (int j + (e - int j))" by (simp only:)
  also have "\<dots> = b powi (int j) * b powi (e - int j)" by (rule power_int_add) (simp add: b)
  finally show ?thesis by simp
qed

lemma fl_fixed:
  assumes "fl q = x"
  shows "fl x = x"
  using assms fl_idem [of q] by simp

lemma hasDigits_complete:
  assumes "0 < x" "0 < s" "readsBack x n k s"
  shows "hasDigits x n k"
proof -
  define u where "u = (10::rat) powi (n - int k)"
  define t where "t = x / u"
  define lo where "lo = \<lfloor>t\<rfloor>"
  have p: "0 < u" by (simp add: u_def)
  have rb: "fl (of_int s * u) = x" using assms(3) by (simp add: readsBack_def u_def)
  have fx: "fl x = x" using rb by (rule fl_fixed)
  have tu: "t * u = x" using p by (simp add: t_def)
  have su: "0 < of_int s * u" using assms(2) p by simp
  show ?thesis
  proof (cases "s \<le> lo")
    case True
    then have "(of_int s :: rat) \<le> of_int lo" by (simp only: of_int_le_iff)
    then have a: "of_int s * u \<le> of_int lo * u" using p by (intro mult_right_mono) simp_all
    have "of_int lo \<le> t" by (simp add: lo_def)
    then have "of_int lo * u \<le> t * u" using p by (intro mult_right_mono) simp_all
    then have b: "of_int lo * u \<le> x" by (simp only: tu)
    have l0: "0 < of_int lo * u" using su a by simp
    have "fl (of_int s * u) \<le> fl (of_int lo * u)" using su a by (rule fl_mono_pos)
    moreover have "fl (of_int lo * u) \<le> fl x" using l0 b by (rule fl_mono_pos)
    ultimately have "fl (of_int lo * u) = x" using rb fx by simp
    then show ?thesis by (simp add: hasDigits_def readsBack_def Let_def lo_def t_def u_def)
  next
    case False
    then have "lo + 1 \<le> s" by simp
    then have "(of_int (lo + 1) :: rat) \<le> of_int s" by (simp only: of_int_le_iff)
    then have a: "of_int (lo + 1) * u \<le> of_int s * u" using p by (intro mult_right_mono) simp_all
    have "t < of_int (lo + 1)" unfolding lo_def by linarith
    then have "t * u < of_int (lo + 1) * u" using p by (simp only: mult_less_cancel_right_pos)
    then have b: "x \<le> of_int (lo + 1) * u" by (simp only: tu)
    have l0: "0 < of_int (lo + 1) * u" using assms(1) b by simp
    have "fl x \<le> fl (of_int (lo + 1) * u)" using assms(1) b by (rule fl_mono_pos)
    moreover have "fl (of_int (lo + 1) * u) \<le> fl (of_int s * u)" using l0 a by (rule fl_mono_pos)
    ultimately have "fl (of_int (lo + 1) * u) = x" using rb fx by simp
    then show ?thesis by (simp add: hasDigits_def readsBack_def Let_def lo_def t_def u_def)
  qed
qed

text \<open>A value within half a step of a number, in the same binade, rounds to it.\<close>

lemma fl_near_same:
  assumes "isNumber x" "0 < x" "2 powi (ilog2 x) \<le> y" "\<bar>y - x\<bar> < 2 powi (ilog2 x - 53)"
  shows "fl y = x"
proof -
  define e where "e = ilog2 x"
  define h where "h = (2::rat) powi (e - 53)"
  obtain M where M: "x = of_int M * 2 powi (e - 52)" "2 ^ 52 \<le> M" "M < 2 ^ 53"
    using number_form [OF assms(1,2)] unfolding e_def by blast
  have hp: "0 < h" by (simp add: h_def)
  have u: "(2::rat) powi (e - 52) = 2 * h"
    using powi_split [of 2 "e - 52" 1] by (simp add: h_def)
  have e1: "(2::rat) powi (e + 1) = 2 ^ 54 * h"
    using powi_split [of 2 "e + 1" 54] by (simp add: h_def)
  have x: "x = of_int M * (2 * h)" using M(1) by (simp only: u)
  have "M + 1 \<le> 2 ^ 53" using M(3) by simp
  then have "(of_int (M + 1) :: rat) \<le> of_int (2 ^ 53)" by (simp only: of_int_le_iff)
  then have "of_int (M + 1) * (2 * h) \<le> (of_int (2 ^ 53) :: rat) * (2 * h)"
    using hp by (intro mult_right_mono) simp_all
  then have "x + 2 * h \<le> 2 ^ 54 * h" unfolding x by (simp add: algebra_simps)
  moreover have "y < x + h" using assms(4) unfolding e_def [symmetric] h_def [symmetric] by linarith
  ultimately have "y < 2 powi (e + 1)" unfolding e1 using hp by linarith
  then have ey: "ilog2 y = e" using assms(3) unfolding e_def [symmetric] by (intro ilog2_unique)
  have "0 < (2::rat) powi e" by simp
  then have y0: "0 < y" using assms(3) unfolding e_def [symmetric] by linarith
  have "y / (2 * h) - of_int M = (y - x) / (2 * h)"
    using hp unfolding x by (simp add: field_simps)
  then have "\<bar>y / (2 * h) - of_int M\<bar> = \<bar>y - x\<bar> / (2 * h)"
    using hp by (simp add: abs_divide)
  also have "\<dots> < h / (2 * h)"
    using assms(4) hp unfolding e_def [symmetric] h_def [symmetric]
    by (intro divide_strict_right_mono) simp_all
  also have "\<dots> = 1 / 2" using hp by simp
  finally have "roundHalfEven (y / (2 * h)) = M" by (rule roundHalfEven_unique)
  then show ?thesis
    unfolding fl_pos_form [OF y0] ey u x by simp
qed

text \<open>Below a power of two the steps are half as wide.\<close>

lemma fl_near_below:
  assumes "x = 2 powi e" "y < x" "x - y < 2 powi (e - 54)"
  shows "fl y = x"
proof -
  define w where "w = (2::rat) powi (e - 54)"
  have wp: "0 < w" by (simp add: w_def)
  have x: "x = 2 ^ 54 * w"
    unfolding assms(1) using powi_split [of 2 e 54] by (simp add: w_def)
  have e1: "(2::rat) powi (e - 1) = 2 ^ 53 * w"
    using powi_split [of 2 "e - 1" 53] by (simp add: w_def)
  have u: "(2::rat) powi (e - 1 - 52) = 2 * w"
    using powi_split [of 2 "e - 1 - 52" 1] by (simp add: w_def)
  have yw: "x - w < y" using assms(3) by (simp add: w_def)
  have "w \<le> 2 ^ 53 * w" using wp by simp
  moreover have "(2::rat) ^ 54 * w = 2 * (2 ^ 53 * w)" by simp
  ultimately have "2 powi (e - 1) \<le> y" unfolding e1 using yw unfolding x by linarith
  note ylo = this
  have "y < 2 powi (e - 1 + 1)" using assms(1,2) by simp
  with ylo have ey: "ilog2 y = e - 1" by (rule ilog2_unique)
  have "(0::rat) < 2 powi (e - 1)" by simp
  then have y0: "0 < y" using ylo by linarith
  have "y / (2 * w) - of_int (2 ^ 53) = (y - x) / (2 * w)"
    using wp unfolding x by (simp add: field_simps)
  then have "\<bar>y / (2 * w) - of_int (2 ^ 53)\<bar> = \<bar>y - x\<bar> / (2 * w)"
    using wp by (simp add: abs_divide)
  also have "\<dots> < w / (2 * w)"
    using yw assms(2) wp by (intro divide_strict_right_mono) simp_all
  also have "\<dots> = 1 / 2" using wp by simp
  finally have "roundHalfEven (y / (2 * w)) = 2 ^ 53" by (rule roundHalfEven_unique)
  then show ?thesis
    unfolding fl_pos_form [OF y0] ey u x by simp
qed

lemma digits_range:
  assumes "0 < x" "1 \<le> k"
  shows "10 ^ (k - 1) \<le> x / 10 powi (decimalExponent x - int k)"
    and "x / 10 powi (decimalExponent x - int k) < 10 ^ k"
proof -
  define n where "n = decimalExponent x"
  define w where "w = (10::rat) powi (n - int k)"
  have wp: "0 < w" by (simp add: w_def)
  have "n - 1 - int (k - 1) = n - int k" using assms(2) by simp
  then have lo: "(10::rat) powi (n - 1) = 10 ^ (k - 1) * w"
    using powi_split [of 10 "n - 1" "k - 1"] by (simp add: w_def)
  have hi: "(10::rat) powi n = 10 ^ k * w"
    using powi_split [of 10 n k] by (simp add: w_def)
  have "10 ^ (k - 1) * w \<le> x" "x < 10 ^ k * w"
    using decimalExponent_bounds [OF assms(1)] unfolding n_def [symmetric] lo hi by simp_all
  then show "10 ^ (k - 1) \<le> x / 10 powi (decimalExponent x - int k)"
    and "x / 10 powi (decimalExponent x - int k) < 10 ^ k"
    using wp unfolding n_def [symmetric] w_def [symmetric]
    by (simp_all add: pos_le_divide_eq pos_divide_less_eq)
qed

text \<open>Seventeen digits always read back.\<close>

lemma seventeen_digits:
  assumes "isNumber x" "0 < x"
  shows "readsBack x (decimalExponent x) 17 (roundHalfEven (x / 10 powi (decimalExponent x - 17)))"
proof -
  define n where "n = decimalExponent x"
  define w where "w = (10::rat) powi (n - 17)"
  define s where "s = roundHalfEven (x / w)"
  define v where "v = of_int s * w"
  define e where "e = ilog2 x"
  define h where "h = (2::rat) powi (e - 53)"
  have wp: "0 < w" by (simp add: w_def)
  have hp: "0 < h" by (simp add: h_def)
  have "v - x = (of_int s - x / w) * w" using wp by (simp add: v_def algebra_simps)
  then have "\<bar>v - x\<bar> = \<bar>of_int s - x / w\<bar> * w" using wp by (simp add: abs_mult)
  also have "\<dots> \<le> (1 / 2) * w"
    using roundHalfEven_near [of "x / w"] wp unfolding s_def by (intro mult_right_mono) simp_all
  finally have near: "\<bar>v - x\<bar> \<le> w / 2" by simp
  have "(10::rat) powi (n - 1) = 10 ^ 16 * w"
    using powi_split [of 10 "n - 1" 16] by (simp add: w_def)
  then have xw: "10 ^ 16 * w \<le> x"
    using decimalExponent_bounds(1) [OF assms(2)] unfolding n_def [symmetric] by simp
  have e0: "(2::rat) powi e = 2 ^ 53 * h"
    using powi_split [of 2 e 53] by (simp add: h_def)
  have e1: "(2::rat) powi (e + 1) = 2 ^ 54 * h"
    using powi_split [of 2 "e + 1" 54] by (simp add: h_def)
  have u: "(2::rat) powi (e - 52) = 2 * h"
    using powi_split [of 2 "e - 52" 1] by (simp add: h_def)
  have e2: "(2::rat) powi (e - 54) = h / 2"
    using powi_split [of 2 "e - 53" 1] by (simp add: h_def)
  have xh: "2 ^ 53 * h \<le> x" "x < 2 ^ 54 * h"
    using ilog2_bounds [OF assms(2)] unfolding e_def [symmetric] e0 e1 by simp_all
  obtain M where M: "x = of_int M * (2 * h)" "2 ^ 52 \<le> M"
    using number_form [OF assms] unfolding e_def [symmetric] u by blast
  have d: "\<bar>v - x\<bar> < h" using near xw xh(2) hp by simp
  have "fl v = x"
  proof (cases "2 powi e \<le> v")
    case True
    show ?thesis
      using assms True d unfolding e_def h_def by (rule fl_near_same)
  next
    case False
    then have vlt: "v < 2 ^ 53 * h" unfolding e0 by simp
    have "M = 2 ^ 52"
    proof (rule ccontr)
      assume "M \<noteq> 2 ^ 52"
      then have "2 ^ 52 + 1 \<le> M" using M(2) by simp
      then have "(of_int (2 ^ 52 + 1) :: rat) \<le> of_int M" by (simp only: of_int_le_iff)
      then have "of_int (2 ^ 52 + 1) * (2 * h) \<le> (of_int M :: rat) * (2 * h)"
        using hp by (intro mult_right_mono) simp_all
      then have "2 ^ 53 * h + 2 * h \<le> x" unfolding M(1) by (simp add: algebra_simps)
      then show False using d vlt hp by simp
    qed
    then have x: "x = 2 powi e" unfolding e0 M(1) by simp
    have vx: "v < x" using vlt xh(1) by simp
    have "x = 2 ^ 53 * h" using x e0 by simp
    then have "x - v < h / 2" using near xw vx hp by simp
    then have "x - v < 2 powi (e - 54)" by (simp only: e2)
    with x vx show ?thesis by (rule fl_near_below)
  qed
  then show ?thesis
    by (simp add: readsBack_def v_def s_def w_def n_def)
qed

text \<open>The digits tried at \<open>k\<close>, before the case of \<open>10 ^ k\<close> is set right.\<close>

lemma candidate_digits:
  assumes "isNumber x" "0 < x"
    and n_def: "n = decimalExponent x"
    and c_def: "c = (case find (hasDigits x n) [1..<17] of
                   Some k \<Rightarrow> (k, pickDigits x n k)
                 | None \<Rightarrow> (17, roundHalfEven (x / 10 powi (n - 17))))"
  shows "1 \<le> fst c" and "fst c \<le> 17" and "readsBack x n (fst c) (snd c)"
    and "10 ^ (fst c - 1) \<le> snd c" and "snd c \<le> 10 ^ fst c"
    and "\<And>j. 1 \<le> j \<Longrightarrow> j < 17 \<Longrightarrow> hasDigits x n j \<Longrightarrow> fst c \<le> j"
proof -
  have range: "10 ^ (k - 1) \<le> s \<and> s \<le> 10 ^ k"
    if k: "1 \<le> k" and s: "s = \<lfloor>x / 10 powi (n - int k)\<rfloor> \<or> s = \<lfloor>x / 10 powi (n - int k)\<rfloor> + 1"
    for k s
  proof -
    define t where "t = x / 10 powi (n - int k)"
    have t: "of_int (10 ^ (k - 1)) \<le> t" "t < of_int (10 ^ k)"
      using digits_range [OF assms(2) k] by (simp_all add: t_def n_def)
    have "10 ^ (k - 1) \<le> \<lfloor>t\<rfloor>" using t(1) by (simp only: le_floor_iff)
    moreover have "\<lfloor>t\<rfloor> < 10 ^ k" using t(2) by (simp only: floor_less_iff)
    ultimately show ?thesis using s unfolding t_def [symmetric] by auto
  qed
  have all: "1 \<le> fst c \<and> fst c \<le> 17 \<and> readsBack x n (fst c) (snd c) \<and>
      10 ^ (fst c - 1) \<le> snd c \<and> snd c \<le> 10 ^ fst c \<and>
      (\<forall>j. 1 \<le> j \<and> j < 17 \<and> hasDigits x n j \<longrightarrow> fst c \<le> j)"
  proof (cases "find (hasDigits x n) [1..<17]")
    case None
    then have c: "c = (17, roundHalfEven (x / 10 powi (n - 17)))" by (simp add: c_def)
    have s: "snd c = \<lfloor>x / 10 powi (n - int 17)\<rfloor> \<or> snd c = \<lfloor>x / 10 powi (n - int 17)\<rfloor> + 1"
      using roundHalfEven_cases [of "x / 10 powi (n - 17)"] by (simp add: c)
    have a: "1 \<le> fst c" "fst c \<le> 17" by (simp_all add: c)
    have b: "readsBack x n (fst c) (snd c)"
      using seventeen_digits [OF assms(1,2)] by (simp add: c n_def)
    have "10 ^ (17 - 1) \<le> snd c \<and> snd c \<le> 10 ^ 17"
      using s by (intro range) simp_all
    then have d: "10 ^ (fst c - 1) \<le> snd c" "snd c \<le> 10 ^ fst c"
      by (simp_all add: c)
    have "\<not> (\<exists>k. k \<in> set [1..<17] \<and> hasDigits x n k)"
      using None unfolding find_None_iff by blast
    then have e: "\<forall>j. 1 \<le> j \<and> j < 17 \<and> hasDigits x n j \<longrightarrow> fst c \<le> j" by auto
    show ?thesis using a b d e by blast
  next
    case (Some k)
    then have c: "c = (k, pickDigits x n k)" by (simp add: c_def)
    obtain i where i: "i < length [1..<17]" "hasDigits x n ([1..<17] ! i)" "k = [1..<17] ! i"
      using Some unfolding find_Some_iff by blast
    have ki: "k = 1 + i" using i(1,3) by simp
    have h: "hasDigits x n k" using i(2,3) by simp
    have k: "1 \<le> k" "k < 17" using ki i(1) by simp_all
    have a: "1 \<le> fst c" "fst c \<le> 17" using k by (simp_all add: c)
    have b: "readsBack x n (fst c) (snd c)" using pickDigits_cases [OF h] by (simp add: c)
    have "10 ^ (k - 1) \<le> pickDigits x n k \<and> pickDigits x n k \<le> 10 ^ k"
      using k(1) pickDigits_cases [OF h] by (intro range) simp_all
    then have d: "10 ^ (fst c - 1) \<le> snd c" "snd c \<le> 10 ^ fst c"
      by (simp_all add: c)
    have e: "\<forall>j. 1 \<le> j \<and> j < 17 \<and> hasDigits x n j \<longrightarrow> fst c \<le> j"
    proof (intro allI impI)
      fix j :: nat
      assume j: "1 \<le> j \<and> j < 17 \<and> hasDigits x n j"
      then obtain k' where "find (hasDigits x n) [1..<17] = Some k'" "k' \<le> j"
        using find_upt_first [of "hasDigits x n" j] by blast
      then show "fst c \<le> j" using Some by (simp add: c)
    qed
    show ?thesis using a b d e by blast
  qed
  then show "1 \<le> fst c" and "fst c \<le> 17" and "readsBack x n (fst c) (snd c)"
    and "10 ^ (fst c - 1) \<le> snd c" and "snd c \<le> 10 ^ fst c"
    and "\<And>j. 1 \<le> j \<Longrightarrow> j < 17 \<Longrightarrow> hasDigits x n j \<Longrightarrow> fst c \<le> j"
    by blast+
qed

lemma shortestDigits_candidate:
  assumes "n = decimalExponent x"
    and "c = (case find (hasDigits x n) [1..<17] of
                Some k \<Rightarrow> (k, pickDigits x n k)
              | None \<Rightarrow> (17, roundHalfEven (x / 10 powi (n - 17))))"
  shows "shortestDigits x = (if snd c = 10 ^ fst c then (1, 1, n + 1) else (snd c, fst c, n))"
  unfolding assms by (simp add: shortestDigits_def Let_def split: option.split)

text \<open>
  The result has the properties the standard asks for: \<open>k \<ge> 1\<close>, \<open>s\<close> has \<open>k\<close> digits,
  and \<open>s * 10 powi (n - k)\<close> rounds to \<open>x\<close>.
\<close>

lemma shortestDigits_sound:
  assumes "isNumber x" "0 < x" "shortestDigits x = (s, k, n)"
  shows "1 \<le> k" and "10 ^ (k - 1) \<le> s" and "s < 10 ^ k"
    and "fl (of_int s * 10 powi (n - int k)) = x"
proof -
  define n0 where "n0 = decimalExponent x"
  define c where "c = (case find (hasDigits x n0) [1..<17] of
                   Some k \<Rightarrow> (k, pickDigits x n0 k)
                 | None \<Rightarrow> (17, roundHalfEven (x / 10 powi (n0 - 17))))"
  note cd = candidate_digits [OF assms(1,2) n0_def c_def]
  have r: "(s, k, n) = (if snd c = 10 ^ fst c then (1, 1, n0 + 1) else (snd c, fst c, n0))"
    using assms(3) shortestDigits_candidate [OF n0_def c_def] by simp
  have rb: "fl (of_int (snd c) * 10 powi (n0 - int (fst c))) = x"
    using cd(3) by (simp add: readsBack_def)
  have "1 \<le> k \<and> 10 ^ (k - 1) \<le> s \<and> s < 10 ^ k \<and> fl (of_int s * 10 powi (n - int k)) = x"
  proof (cases "snd c = 10 ^ fst c")
    case True
    then have skn: "s = 1" "k = 1" "n = n0 + 1" using r by simp_all
    have "(10::rat) powi n0 = 10 ^ fst c * 10 powi (n0 - int (fst c))"
      by (rule powi_split) simp
    then have "fl (10 powi n0) = x" using rb True by simp
    then show ?thesis by (simp add: skn)
  next
    case False
    then have skn: "s = snd c" "k = fst c" "n = n0" using r by simp_all
    show ?thesis using cd(1,4,5) rb False by (simp add: skn)
  qed
  then show "1 \<le> k" and "10 ^ (k - 1) \<le> s" and "s < 10 ^ k"
    and "fl (of_int s * 10 powi (n - int k)) = x"
    by simp_all
qed

text \<open>No digits that round to \<open>x\<close> are fewer, at any exponent.\<close>

lemma shortestDigits_least:
  assumes "isNumber x" "0 < x" "shortestDigits x = (s, k, n)"
    and "1 \<le> k'" "10 ^ (k' - 1) \<le> s'" "s' < 10 ^ k'"
    and "fl (of_int s' * 10 powi (n' - int k')) = x"
  shows "k \<le> k'"
proof -
  define n0 where "n0 = decimalExponent x"
  define c where "c = (case find (hasDigits x n0) [1..<17] of
                   Some k \<Rightarrow> (k, pickDigits x n0 k)
                 | None \<Rightarrow> (17, roundHalfEven (x / 10 powi (n0 - 17))))"
  note cd = candidate_digits [OF assms(1,2) n0_def c_def]
  have r: "(s, k, n) = (if snd c = 10 ^ fst c then (1, 1, n0 + 1) else (snd c, fst c, n0))"
    using assms(3) shortestDigits_candidate [OF n0_def c_def] by simp
  have kc: "k \<le> fst c" using r cd(1) by (cases "snd c = 10 ^ fst c") simp_all
  show ?thesis
  proof (cases "17 \<le> k'")
    case True
    then show ?thesis using kc cd(2) by simp
  next
    case False
    then have k17: "k' < 17" by simp
    define v where "v = of_int s' * (10::rat) powi (n' - int k')"
    have fv: "fl v = x" using assms(7) by (simp add: v_def)
    have fx: "fl x = x" using assms(1) by (simp add: isNumber_def)
    have s0: "0 < s'"
    proof -
      have "(0::int) < 10 ^ (k' - 1)" by simp
      then show ?thesis using assms(5) by linarith
    qed
    have wp: "(0::rat) < 10 powi (n' - int k')" by simp
    have v0: "0 < v" using s0 wp by (simp add: v_def)
    have "n' - 1 - int (k' - 1) = n' - int k'" using assms(4) by simp
    then have lo: "(10::rat) powi (n' - 1) = 10 ^ (k' - 1) * 10 powi (n' - int k')"
      using powi_split [of 10 "n' - 1" "k' - 1"] by simp
    have hi: "(10::rat) powi n' = 10 ^ k' * 10 powi (n' - int k')"
      by (rule powi_split) simp
    have "(of_int (10 ^ (k' - 1)) :: rat) \<le> of_int s'" using assms(5) by (simp only: of_int_le_iff)
    then have "of_int (10 ^ (k' - 1)) * 10 powi (n' - int k') \<le> v"
      unfolding v_def using wp by (intro mult_right_mono) simp_all
    then have vlo: "10 powi (n' - 1) \<le> v" unfolding lo by simp
    have "(of_int s' :: rat) < of_int (10 ^ k')" using assms(6) by (simp only: of_int_less_iff)
    then have "v < of_int (10 ^ k') * 10 powi (n' - int k')"
      unfolding v_def using wp by (simp only: mult_less_cancel_right_pos)
    then have vhi: "v < 10 powi n'" unfolding hi by simp
    have xb: "10 powi (n0 - 1) \<le> x" "x < 10 powi n0"
      using decimalExponent_bounds [OF assms(2)] by (simp_all add: n0_def)
    have "\<exists>j. 1 \<le> j \<and> j \<le> k' \<and> hasDigits x n0 j"
    proof -
      consider "n' = n0" | "n' \<le> n0 - 1" | "n0 \<le> n' - 1" by linarith
      then show ?thesis
      proof cases
        case 1
        have "readsBack x n0 k' s'" using assms(7) 1 by (simp add: readsBack_def)
        then have "hasDigits x n0 k'" using assms(2) s0 by (intro hasDigits_complete)
        then show ?thesis using assms(4) by blast
      next
        case 2
        have p: "(0::rat) < 10 powi (n0 - 1)" by simp
        have "(10::rat) powi n' \<le> 10 powi (n0 - 1)"
          using 2 by (intro power_int_increasing) simp_all
        then have a: "v \<le> 10 powi (n0 - 1)" using vhi by simp
        have "fl v \<le> fl (10 powi (n0 - 1))" using v0 a by (rule fl_mono_pos)
        moreover have "fl (10 powi (n0 - 1)) \<le> fl x" using p xb(1) by (rule fl_mono_pos)
        ultimately have "fl (10 powi (n0 - 1)) = x" using fv fx by simp
        then have "readsBack x n0 1 1" by (simp add: readsBack_def)
        then have "hasDigits x n0 1" using assms(2) by (intro hasDigits_complete) simp_all
        then show ?thesis using assms(4) by blast
      next
        case 3
        have p: "(0::rat) < 10 powi n0" by simp
        have "(10::rat) powi n0 \<le> 10 powi (n' - 1)"
          using 3 by (intro power_int_increasing) simp_all
        then have a: "10 powi n0 \<le> v" using vlo by simp
        have b: "x \<le> 10 powi n0" using xb(2) by simp
        have "fl x \<le> fl (10 powi n0)" using assms(2) b by (rule fl_mono_pos)
        moreover have "fl (10 powi n0) \<le> fl v" using p a by (rule fl_mono_pos)
        ultimately have f: "fl (10 powi n0) = x" using fv fx by simp
        have "(10::rat) powi n0 = 10 ^ 1 * 10 powi (n0 - int 1)"
          by (rule powi_split) simp
        then have "fl (of_int 10 * 10 powi (n0 - int 1)) = x" using f by simp
        then have "readsBack x n0 1 10" by (simp only: readsBack_def)
        then have "hasDigits x n0 1" using assms(2) by (intro hasDigits_complete) simp_all
        then show ?thesis using assms(4) by blast
      qed
    qed
    then obtain j where j: "1 \<le> j" "j \<le> k'" "hasDigits x n0 j" by blast
    then have "fst c \<le> j" using k17 by (intro cd(6)) simp_all
    then show ?thesis using kc j(2) by simp
  qed
qed

section \<open>Properties of the filter\<close>

lemma includes_str_sublist: "includes_str s t \<longleftrightarrow> sublist t s"
  by (induction s) (auto simp: sublist_Cons_right)

lemma sublist_map_iff: "sublist w (map f s) \<longleftrightarrow> (\<exists>u. sublist u s \<and> map f u = w)"
proof
  assume "sublist w (map f s)"
  then show "\<exists>u. sublist u s \<and> map f u = w"
    using sublist_map_rightE by metis
next
  assume "\<exists>u. sublist u s \<and> map f u = w"
  then obtain u ps ss where "s = ps @ u @ ss" and "map f u = w"
    by (auto simp: sublist_def)
  then have "map f s = map f ps @ w @ map f ss" by simp
  then show "sublist w (map f s)" unfolding sublist_def by blast
qed

lemma toLowerCase_word:
  "toLowerCase ''claude'' = ''claude''" "toLowerCase ''anthropic'' = ''anthropic''"
  "toLowerCase ''sonnet'' = ''sonnet''" "toLowerCase ''opus'' = ''opus''"
  "toLowerCase ''haiku'' = ''haiku''" "toLowerCase ''gpt'' = ''gpt''"
  "toLowerCase ''o1'' = ''o1''" "toLowerCase ''o3'' = ''o3''" "toLowerCase ''o4'' = ''o4''"
  "toLowerCase ''gemini'' = ''gemini''"
  by (simp_all add: toLowerCase_def toLowerCase_char_def)

lemma includes_lower_iff:
  assumes "toLowerCase w = w"
  shows "includes_str (toLowerCase s) w \<longleftrightarrow> containsIgnoringCase s w"
  unfolding includes_str_sublist containsIgnoringCase_def assms
  by (simp add: toLowerCase_def sublist_map_iff)

lemma keepModel_specKeeps: "keepModel appId m = specKeeps appId m"
  by (simp add: keepModel_def specKeeps_def familyWords_def Let_def
      includes_lower_iff toLowerCase_word)

text \<open>
  C3. For every list of items and every application, the filter keeps exactly the items
  whose model identifier contains, as a substring and ignoring case, one of the words of
  the application: \<open>claude\<close>, \<open>anthropic\<close>, \<open>sonnet\<close>, \<open>opus\<close>, \<open>haiku\<close> for \<open>claude\<close>;
  \<open>gpt\<close>, \<open>o1\<close>, \<open>o3\<close>, \<open>o4\<close> for \<open>codex\<close>; \<open>gemini\<close> for \<open>gemini\<close>. For every other
  application it keeps all items. The kept items stand in the order of the input.
\<close>

theorem models_keeps_family:
  "models appId ms = filter (specKeeps appId) ms \<and> subseq (models appId ms) ms"
proof -
  have "keepModel appId = specKeeps appId"
    by (rule ext) (rule keepModel_specKeeps)
  then show ?thesis by (simp add: models_def)
qed

text \<open>
  C8. The filter is idempotent: filtering the output of the filter again, for the same
  application, returns that output.
\<close>

theorem models_idempotent: "models appId (models appId ms) = models appId ms"
  by (simp add: models_def)

lemma models_example:
  "models ''claude'' [opusItem, gptItem] = [opusItem]"
  "models ''codex'' [opusItem, gptItem] = [gptItem]"
  "models ''gemini'' [opusItem, gptItem] = []"
  "models ''other'' [opusItem, gptItem] = [opusItem, gptItem]"
  by (simp_all add: models_def keepModel_def opusItem_def gptItem_def toLowerCase_def
      toLowerCase_char_def Let_def)

section \<open>Properties of the sum over the models\<close>

lemma foldl_addUsage:
  "foldl addUsage acc ms =
     \<lparr>requests = foldl js_add (PeriodUsage.requests acc) (map ModelStatsItem.requests ms),
      inputTokens = foldl js_add (PeriodUsage.inputTokens acc) (map ModelStatsItem.inputTokens ms),
      outputTokens = foldl js_add (PeriodUsage.outputTokens acc) (map ModelStatsItem.outputTokens ms),
      cacheCreateTokens = foldl js_add (PeriodUsage.cacheCreateTokens acc) (map ModelStatsItem.cacheCreateTokens ms),
      cacheReadTokens = foldl js_add (PeriodUsage.cacheReadTokens acc) (map ModelStatsItem.cacheReadTokens ms),
      allTokens = foldl js_add (PeriodUsage.allTokens acc) (map ModelStatsItem.allTokens ms),
      cost = foldl js_add (cost acc) (map (\<lambda>m. total (costs m)) ms)\<rparr>"
  by (induction ms arbitrary: acc) (simp_all add: addUsage_def)

lemma periodUsage_Cons:
  "ms \<noteq> [] \<Longrightarrow> periodUsage ms =
     Some \<lparr>requests = sumNumbers (map ModelStatsItem.requests ms),
           inputTokens = sumNumbers (map ModelStatsItem.inputTokens ms),
           outputTokens = sumNumbers (map ModelStatsItem.outputTokens ms),
           cacheCreateTokens = sumNumbers (map ModelStatsItem.cacheCreateTokens ms),
           cacheReadTokens = sumNumbers (map ModelStatsItem.cacheReadTokens ms),
           allTokens = sumNumbers (map ModelStatsItem.allTokens ms),
           cost = sumNumbers (map (\<lambda>m. total (costs m)) ms)\<rparr>"
  by (simp add: periodUsage_def foldl_addUsage sumNumbers_def)

lemma sumNumbers_single: "isNumber x \<Longrightarrow> sumNumbers [x] = x"
  by (simp add: sumNumbers_def js_add_def isNumber_def)

lemma isCount_0: "isCount 0"
  by (simp add: isCount_def)

lemma sumNumbers_exact:
  assumes "list_all isCount xs" "sum_list xs \<le> 2 ^ 53"
  shows "sumNumbers xs = sum_list xs"
  using foldl_js_add_exact [of xs 0] assms
  by (simp add: sumNumbers_def isCount_0 list_all_iff)

lemma safeCounts_exact:
  assumes "safeCounts ms" "ms \<noteq> []"
  shows "map_option counters (periodUsage ms) = Some (exactCounters ms)"
proof -
  have c: "list_all isCount (map f ms)"
    if "\<And>m. f m \<in> set (itemCounters m)" for f
    using assms(1) that by (auto simp: safeCounts_def list_all_iff)
  have b: "sum_list (map f ms) \<le> 2 ^ 53"
    if "sum_list (map f ms) \<in> set (exactCounters ms)" for f
    using assms(1) that by (auto simp: safeCounts_def list_all_iff)
  have "sumNumbers (map f ms) = sum_list (map f ms)"
    if "\<And>m. f m \<in> set (itemCounters m)" "sum_list (map f ms) \<in> set (exactCounters ms)" for f
    using sumNumbers_exact [OF c b] that by blast
  then show ?thesis
    by (simp add: periodUsage_Cons [OF assms(2)] counters_def exactCounters_def itemCounters_def)
qed

lemma safeCounts_perm:
  assumes "mset ms = mset ms'" "safeCounts ms"
  shows "safeCounts ms'" and "exactCounters ms' = exactCounters ms"
proof -
  have s: "sum_list (map f ms') = sum_list (map f ms)" for f :: "ModelStatsItem \<Rightarrow> number"
  proof -
    have "mset (map f ms') = mset (map f ms)" using assms(1) by (metis mset_map)
    then show ?thesis by (metis sum_mset_sum_list)
  qed
  show e: "exactCounters ms' = exactCounters ms"
    by (simp add: exactCounters_def s)
  have "set ms' = set ms" using assms(1) by (metis mset_eq_setD)
  then show "safeCounts ms'"
    using assms(2) by (simp add: safeCounts_def e list_all_iff)
qed

lemma items_wellFormed:
  "wellFormedItem itemA" "wellFormedItem itemB" "wellFormedItem itemC"
  "wellFormedItem opusItem" "wellFormedItem gptItem"
  by code_simp+

lemma items_safeCounts:
  "safeCounts [itemA, itemB, itemC]" "safeCounts [opusItem, gptItem]"
  by code_simp+

text \<open>
  C2. The sum over an empty list is absent, not a record of zeros. Over a non-empty list
  it is the record of the component-wise sums of requests, the four token counters, all
  tokens and the total cost, each added as the program adds numbers: from zero, left to
  right, every addition rounded to a \<open>number\<close>. Where the counters are counts with totals
  up to \<open>2 ^ 53\<close> their sums are the exact ones. Over a single item the record holds that
  item's fields.
\<close>

theorem periodUsage_sums:
  "periodUsage [] = None \<and>
   (ms \<noteq> [] \<longrightarrow>
      periodUsage ms =
        Some \<lparr>requests = sumNumbers (map ModelStatsItem.requests ms),
              inputTokens = sumNumbers (map ModelStatsItem.inputTokens ms),
              outputTokens = sumNumbers (map ModelStatsItem.outputTokens ms),
              cacheCreateTokens = sumNumbers (map ModelStatsItem.cacheCreateTokens ms),
              cacheReadTokens = sumNumbers (map ModelStatsItem.cacheReadTokens ms),
              allTokens = sumNumbers (map ModelStatsItem.allTokens ms),
              cost = sumNumbers (map (\<lambda>m. total (costs m)) ms)\<rparr>) \<and>
   (ms \<noteq> [] \<and> safeCounts ms \<longrightarrow>
      map_option counters (periodUsage ms) = Some (exactCounters ms)) \<and>
   (wellFormedItem m \<longrightarrow>
      periodUsage [m] =
        Some \<lparr>requests = ModelStatsItem.requests m,
              inputTokens = ModelStatsItem.inputTokens m,
              outputTokens = ModelStatsItem.outputTokens m,
              cacheCreateTokens = ModelStatsItem.cacheCreateTokens m,
              cacheReadTokens = ModelStatsItem.cacheReadTokens m,
              allTokens = ModelStatsItem.allTokens m,
              cost = total (costs m)\<rparr>)"
proof -
  have empty: "periodUsage [] = None"
    by (simp add: periodUsage_def)
  have single: "periodUsage [m] =
        Some \<lparr>requests = ModelStatsItem.requests m,
              inputTokens = ModelStatsItem.inputTokens m,
              outputTokens = ModelStatsItem.outputTokens m,
              cacheCreateTokens = ModelStatsItem.cacheCreateTokens m,
              cacheReadTokens = ModelStatsItem.cacheReadTokens m,
              allTokens = ModelStatsItem.allTokens m,
              cost = total (costs m)\<rparr>" if "wellFormedItem m"
    using that
    by (simp add: periodUsage_Cons wellFormedItem_def itemCounters_def sumNumbers_single)
  show ?thesis
    using empty single periodUsage_Cons [of ms] safeCounts_exact [of ms] by blast
qed

theorem periodUsage_sums_witness:
  "periodUsage [opusItem, gptItem] =
     Some \<lparr>requests = 15, inputTokens = 140, outputTokens = 70, cacheCreateTokens = 0,
           cacheReadTokens = 0, allTokens = 210, cost = 2\<rparr> \<and>
   map_option counters (periodUsage [opusItem, gptItem]) = Some [15, 140, 70, 0, 0, 210] \<and>
   periodUsage [opusItem] =
     Some \<lparr>requests = 10, inputTokens = 100, outputTokens = 50, cacheCreateTokens = 0,
           cacheReadTokens = 0, allTokens = 150, cost = 3 / 2\<rparr>"
proof -
  have s: "sumNumbers (map ModelStatsItem.requests [opusItem, gptItem]) = 15"
    "sumNumbers (map ModelStatsItem.inputTokens [opusItem, gptItem]) = 140"
    "sumNumbers (map ModelStatsItem.outputTokens [opusItem, gptItem]) = 70"
    "sumNumbers (map ModelStatsItem.cacheCreateTokens [opusItem, gptItem]) = 0"
    "sumNumbers (map ModelStatsItem.cacheReadTokens [opusItem, gptItem]) = 0"
    "sumNumbers (map ModelStatsItem.allTokens [opusItem, gptItem]) = 210"
    "sumNumbers (map (\<lambda>m. total (costs m)) [opusItem, gptItem]) = 2"
    by code_simp+
  have e: "exactCounters [opusItem, gptItem] = [15, 140, 70, 0, 0, 210]"
    by (simp add: exactCounters_def opusItem_def gptItem_def)
  have f: "ModelStatsItem.requests opusItem = 10" "ModelStatsItem.inputTokens opusItem = 100"
    "ModelStatsItem.outputTokens opusItem = 50" "ModelStatsItem.cacheCreateTokens opusItem = 0"
    "ModelStatsItem.cacheReadTokens opusItem = 0" "ModelStatsItem.allTokens opusItem = 150"
    "total (costs opusItem) = 3 / 2"
    by (simp_all add: opusItem_def)
  have n: "[opusItem, gptItem] \<noteq> []"
    by simp
  show ?thesis
    using periodUsage_sums [of "[opusItem, gptItem]" opusItem]
      n items_safeCounts(2) items_wellFormed(4)
    unfolding s e f by blast
qed

text \<open>
  The example of the specification: of the two items the filter for \<open>claude\<close> keeps
  the first, and the sum over it has 10 requests, 150 tokens and the cost 1.5.
\<close>

lemma periodUsage_example:
  "periodUsage (models ''claude'' [opusItem, gptItem]) =
     Some \<lparr>requests = 10, inputTokens = 100, outputTokens = 50, cacheCreateTokens = 0,
           cacheReadTokens = 0, allTokens = 150, cost = 3 / 2\<rparr>"
  by code_simp

text \<open>
  C7, as stated, fails. The cost is a floating-point sum, and floating-point addition is
  not associative: with the costs 0.1, 0.2 and 0.3 the sum taken in this order and the
  sum taken in the reverse order differ in the last bit.
\<close>

theorem periodUsage_order_counterexample:
  "mset [itemA, itemB, itemC] = mset [itemC, itemB, itemA] \<and>
   wellFormedItem itemA \<and> wellFormedItem itemB \<and> wellFormedItem itemC \<and>
   periodUsage [itemA, itemB, itemC] \<noteq> periodUsage [itemC, itemB, itemA]"
proof -
  have "periodUsage [itemA, itemB, itemC] \<noteq> periodUsage [itemC, itemB, itemA]"
    by code_simp
  moreover have "mset [itemA, itemB, itemC] = mset [itemC, itemB, itemA]"
    by (simp add: add.commute)
  ultimately show ?thesis
    using items_wellFormed(1-3) by blast
qed

lemma periodUsage_order_costs:
  "map_option cost (periodUsage [itemA, itemB, itemC]) = Some (5404319552844596 / 2 ^ 53)"
  "map_option cost (periodUsage [itemC, itemB, itemA]) = Some (5404319552844595 / 2 ^ 53)"
  by code_simp+

text \<open>
  C7, amended. For every list of items and every permutation of it, the sum is absent
  for both or present for both, and the six counters (requests and the token counters)
  of the two sums are equal, provided the counters of the items are counts whose totals
  do not exceed \<open>2 ^ 53\<close>. The cost of the two sums can differ by rounding.
\<close>

theorem periodUsage_permutation_counts:
  assumes "mset ms = mset ms'" and "safeCounts ms"
  shows "(periodUsage ms = None \<longleftrightarrow> periodUsage ms' = None) \<and>
         map_option counters (periodUsage ms) = map_option counters (periodUsage ms')"
proof (cases "ms = []")
  case True
  then have "ms' = []" using assms(1) by simp
  then show ?thesis using True by simp
next
  case False
  then have ne: "ms' \<noteq> []" using assms(1) by auto
  have "map_option counters (periodUsage ms') = Some (exactCounters ms)"
    using safeCounts_exact [OF safeCounts_perm(1) [OF assms] ne] safeCounts_perm(2) [OF assms]
    by simp
  then show ?thesis
    using safeCounts_exact [OF assms(2) False] False ne by (simp add: periodUsage_def)
qed

theorem periodUsage_permutation_counts_witness:
  "mset [opusItem, gptItem] = mset [gptItem, opusItem] \<and> safeCounts [opusItem, gptItem] \<and>
   map_option counters (periodUsage [opusItem, gptItem]) =
   map_option counters (periodUsage [gptItem, opusItem]) \<and>
   periodUsage [gptItem, opusItem] \<noteq> None"
proof -
  have p: "mset [opusItem, gptItem] = mset [gptItem, opusItem]"
    by (simp add: add.commute)
  have "periodUsage [opusItem, gptItem] \<noteq> None"
    by (simp add: periodUsage_def)
  then show ?thesis
    using periodUsage_permutation_counts [OF p items_safeCounts(2)] p items_safeCounts(2)
    by auto
qed

section \<open>Properties of the progress and of the token format\<close>

lemma calcProgress_le: "calcProgress current limit \<le> 100"
  by (simp add: calcProgress_def)

lemma calcProgress_ge:
  assumes "nonNegative current" "nonNegative limit"
  shows "0 \<le> calcProgress current limit"
proof (cases "falsyNum current \<or> falsyNum limit \<or> limit = Some 0")
  case True
  then show ?thesis by (simp add: calcProgress_def)
next
  case False
  then obtain c l where cl: "current = Some c" "limit = Some l"
    by (cases current; cases limit) auto
  have "0 \<le> c / l" using assms cl by simp
  then have "0 \<le> js_div c l" unfolding js_div_def by (rule fl_nonneg)
  then have "0 \<le> js_div c l * 100" by simp
  then have "0 \<le> js_mul (js_div c l) 100" unfolding js_mul_def by (rule fl_nonneg)
  then show ?thesis using False cl by (simp add: calcProgress_def)
qed

lemma calcProgress_examples:
  "calcProgress (Some 80) (Some 100) = 80"
  "calcProgress (Some 150) (Some 100) = 100"
  "calcProgress (Some 5) (Some 0) = 0"
  "calcProgress (Some (- 50)) (Some 100) = - 50"
  by code_simp+

text \<open>
  C5, as stated, fails: the result is not in [0,100] for every pair. Only the upper end
  is clamped; a negative \<open>current\<close> over a positive \<open>limit\<close> gives a negative result.
\<close>

theorem calcProgress_range_counterexample:
  "calcProgress (Some (- 50)) (Some 100) = - 50 \<and>
   \<not> (0 \<le> calcProgress (Some (- 50)) (Some 100) \<and> calcProgress (Some (- 50)) (Some 100) \<le> 100)"
  using calcProgress_examples(4) by simp

text \<open>
  C5, amended. The result is 0 when either value is absent or zero, and
  \<open>min(current / limit * 100, 100)\<close> otherwise. It never exceeds 100, and it lies in
  [0,100] for every pair of values that are absent or not negative. For (80, 100) it is 80,
  for (150, 100) it is 100 and for (5, 0) it is 0.
\<close>

theorem calcProgress_range:
  "(falsyNum current \<or> falsyNum limit \<longrightarrow> calcProgress current limit = 0) \<and>
   (c \<noteq> 0 \<and> l \<noteq> 0 \<longrightarrow>
      calcProgress (Some c) (Some l) = min (js_mul (js_div c l) 100) 100) \<and>
   calcProgress current limit \<le> 100 \<and>
   (nonNegative current \<and> nonNegative limit \<longrightarrow>
      0 \<le> calcProgress current limit \<and> calcProgress current limit \<le> 100) \<and>
   calcProgress (Some 80) (Some 100) = 80 \<and>
   calcProgress (Some 150) (Some 100) = 100 \<and>
   calcProgress (Some 5) (Some 0) = 0"
proof -
  have "falsyNum current \<or> falsyNum limit \<longrightarrow> calcProgress current limit = 0"
    by (simp add: calcProgress_def)
  moreover have "c \<noteq> 0 \<and> l \<noteq> 0 \<longrightarrow>
      calcProgress (Some c) (Some l) = min (js_mul (js_div c l) 100) 100"
    by (simp add: calcProgress_def)
  ultimately show ?thesis
    using calcProgress_le calcProgress_ge calcProgress_examples(1-3) by blast
qed

theorem calcProgress_range_witness:
  "calcProgress None (Some 100) = 0 \<and>
   calcProgress (Some 0) (Some 100) = 0 \<and>
   calcProgress (Some 1) (Some 3) = min (js_mul (js_div 1 3) 100) 100 \<and>
   0 \<le> calcProgress (Some 1) (Some 3) \<and> calcProgress (Some 1) (Some 3) \<le> 100"
proof -
  have h: "falsyNum None" "falsyNum (Some 0)" "(1::rat) \<noteq> 0 \<and> (3::rat) \<noteq> 0"
    "nonNegative (Some 1) \<and> nonNegative (Some 3)"
    by simp_all
  show ?thesis
    using h calcProgress_range [of None "Some 100" 1 3]
      calcProgress_range [of "Some 0" "Some 100" 1 3]
      calcProgress_range [of "Some 1" "Some 3" 1 3]
    by blast
qed

lemma Number_toString_examples:
  "Number_toString 500 = ''500''"
  "Number_toString (25 / 2) = ''12.5''"
  "Number_toString (- 7) = ''-7''"
  "Number_toString (1 / 1024) = ''0.0009765625''"
  "Number_toString (10 ^ 21) = ''1e+21''"
  "Number_toString (fl (1 / 10)) = ''0.1''"
  "Number_toString (fl (1 / 2000000)) = ''5e-7''"
  by code_simp+

text \<open>
  Digits are the shortest that read back, not the exact value: \<open>2 ^ 64\<close> is
  18446744073709551616, and \<open>0.1 + 0.2\<close> is not \<open>0.3\<close>.
\<close>

lemma Number_toString_shortest_examples:
  "Number_toString (- (2 ^ 64)) = ''-18446744073709552000''"
  "Number_toString (js_add (fl (1 / 10)) (fl (1 / 5))) = ''0.30000000000000004''"
  by code_simp+

lemma formatTokens_examples:
  "formatTokens (Some 1500000) = ''1.50M''"
  "formatTokens (Some 2500) = ''2.5K''"
  "formatTokens (Some 500) = ''500''"
  by code_simp+

lemma formatTokens_more_examples:
  "formatTokens (Some 1234567) = ''1.23M''"
  "formatTokens (Some 1005000) = ''1.00M''"
  "formatTokens (Some 999999) = ''1000.0K''"
  "formatTokens (Some 2250) = ''2.3K''"
  "formatTokens (Some 42) = ''42''"
  "formatTokens (Some 0) = ''0''"
  "formatTokens (Some (25 / 2)) = ''12.5''"
  by code_simp+

lemma formatTokens_small:
  assumes "n < 1000"
  shows "formatTokens (Some n) = Number_toString n"
  using assms by (simp add: formatTokens_def)

lemma formatTokens_integer:
  assumes "- (10 ^ 15) < k" "k < 1000"
  shows "formatTokens (Some (of_int k)) = (if k < 0 then ''-'' else '''') @ digits \<bar>k\<bar>"
proof -
  have "(of_int k :: rat) < 1000" using assms(2) by simp
  then have "formatTokens (Some (of_int k)) = Number_toString (of_int k)"
    by (rule formatTokens_small)
  moreover have "k < 10 ^ 15" using assms(2) by simp
  ultimately show ?thesis using Number_toString_int [OF assms(1)] by simp
qed

lemma formatTokens_M:
  assumes "1000000 \<le> n" "js_div n 1000000 < 10 ^ 21"
  shows "formatTokens (Some n) =
           decimalText \<lfloor>js_div n 1000000 * 10 ^ 2 + 1 / 2\<rfloor> 2 @ ''M''"
proof -
  have "0 \<le> n / 1000000" using assms(1) by simp
  then have x0: "0 \<le> js_div n 1000000" unfolding js_div_def by (rule fl_nonneg)
  then have a: "\<bar>js_div n 1000000\<bar> = js_div n 1000000" "\<not> js_div n 1000000 < 0"
    by simp_all
  have "\<bar>js_div n 1000000\<bar> < 10 ^ 21" using assms(2) a(1) by simp
  then show ?thesis
    using assms(1) by (simp add: formatTokens_def toFixed_decimal a)
qed

lemma formatTokens_huge:
  assumes "1000000 \<le> n" "10 ^ 21 \<le> js_div n 1000000"
  shows "formatTokens (Some n) = Number_toString (js_div n 1000000) @ ''M''"
  using assms(1) toFixed_large [OF assms(2)] by (simp add: formatTokens_def)

lemma formatTokens_K:
  assumes "1000 \<le> n" "n < 1000000"
  shows "formatTokens (Some n) =
           decimalText \<lfloor>js_div n 1000 * 10 ^ 1 + 1 / 2\<rfloor> 1 @ ''K''"
proof -
  have q: "0 \<le> n / 1000" using assms(1) by simp
  then have x0: "0 \<le> js_div n 1000" unfolding js_div_def by (rule fl_nonneg)
  then have a: "\<bar>js_div n 1000\<bar> = js_div n 1000" "\<not> js_div n 1000 < 0"
    by simp_all
  have "js_div n 1000 \<le> 2 * (n / 1000)" unfolding js_div_def using q by (rule fl_le_double)
  also have "\<dots> < 10 ^ 21" using assms(2) by simp
  finally have "\<bar>js_div n 1000\<bar> < 10 ^ 21" using a(1) by simp
  then show ?thesis
    using assms by (simp add: formatTokens_def toFixed_decimal a)
qed

text \<open>
  C9, as stated, fails: from 1,000,000 on the text is not, for every input, the quotient
  written with two decimals. \<open>toFixed\<close> writes a number from \<open>10 ^ 21\<close> on as \<open>toString\<close>
  does, in exponent notation. The number \<open>1e27\<close> divided by 1,000,000 is \<open>10 ^ 21\<close>, and
  its text is \<open>1e+21M\<close>, where two decimals would give \<open>1000000000000000000000.00M\<close>.
\<close>

theorem formatTokens_two_decimals_counterexample:
  "1000000 \<le> fl (10 ^ 27) \<and>
   formatTokens (Some (fl (10 ^ 27))) = ''1e+21M'' \<and>
   decimalText \<lfloor>js_div (fl (10 ^ 27)) 1000000 * 10 ^ 2 + 1 / 2\<rfloor> 2 @ ''M'' =
     ''1000000000000000000000.00M''"
  by code_simp

text \<open>
  C9, amended. \<open>formatTokens\<close> returns \<open>-\<close> for an absent value. From 1,000,000 on it
  returns the text \<open>toFixed(2)\<close> gives for the value divided by 1,000,000, followed by \<open>M\<close>:
  while the quotient is below \<open>10 ^ 21\<close> that is the quotient rounded to the nearest
  hundredth and written with exactly two decimals, and from \<open>10 ^ 21\<close> on it is the text
  \<open>toString\<close> gives for the quotient. From 1,000 on it returns the text \<open>toFixed(1)\<close> gives
  for the value divided by 1,000, followed by \<open>K\<close>: the quotient rounded to the nearest
  tenth and written with exactly one decimal. Below 1,000 it returns the text \<open>toString\<close>
  gives for the value, which for an integer above \<open>- (10 ^ 15)\<close> is its decimal digits
  with its sign. So 1500000 gives \<open>1.50M\<close>, 2500 gives \<open>2.5K\<close> and 500 gives \<open>500\<close>.
\<close>

theorem formatTokens_texts:
  "formatTokens None = ''-'' \<and>
   (1000000 \<le> n \<longrightarrow>
      formatTokens (Some n) = toFixed (js_div n 1000000) 2 @ ''M'') \<and>
   (1000000 \<le> n \<and> js_div n 1000000 < 10 ^ 21 \<longrightarrow>
      formatTokens (Some n) =
        decimalText \<lfloor>js_div n 1000000 * 10 ^ 2 + 1 / 2\<rfloor> 2 @ ''M'') \<and>
   (1000000 \<le> n \<and> 10 ^ 21 \<le> js_div n 1000000 \<longrightarrow>
      formatTokens (Some n) = Number_toString (js_div n 1000000) @ ''M'') \<and>
   (1000 \<le> n \<and> n < 1000000 \<longrightarrow>
      formatTokens (Some n) = toFixed (js_div n 1000) 1 @ ''K'' \<and>
      formatTokens (Some n) =
        decimalText \<lfloor>js_div n 1000 * 10 ^ 1 + 1 / 2\<rfloor> 1 @ ''K'') \<and>
   (n < 1000 \<longrightarrow> formatTokens (Some n) = Number_toString n) \<and>
   (- (10 ^ 15) < k \<and> k < 1000 \<longrightarrow>
      formatTokens (Some (of_int k)) = (if k < 0 then ''-'' else '''') @ digits \<bar>k\<bar>) \<and>
   formatTokens (Some 1500000) = ''1.50M'' \<and>
   formatTokens (Some 2500) = ''2.5K'' \<and>
   formatTokens (Some 500) = ''500''"
proof -
  have big: "1000000 \<le> n \<longrightarrow>
      formatTokens (Some n) = toFixed (js_div n 1000000) 2 @ ''M''"
    by (simp add: formatTokens_def)
  have bigText: "1000000 \<le> n \<and> js_div n 1000000 < 10 ^ 21 \<longrightarrow>
      formatTokens (Some n) =
        decimalText \<lfloor>js_div n 1000000 * 10 ^ 2 + 1 / 2\<rfloor> 2 @ ''M''"
    using formatTokens_M [of n] by blast
  have huge: "1000000 \<le> n \<and> 10 ^ 21 \<le> js_div n 1000000 \<longrightarrow>
      formatTokens (Some n) = Number_toString (js_div n 1000000) @ ''M''"
    using formatTokens_huge [of n] by blast
  have mid: "1000 \<le> n \<and> n < 1000000 \<longrightarrow>
      formatTokens (Some n) = toFixed (js_div n 1000) 1 @ ''K'' \<and>
      formatTokens (Some n) =
        decimalText \<lfloor>js_div n 1000 * 10 ^ 1 + 1 / 2\<rfloor> 1 @ ''K''"
  proof (intro impI conjI)
    assume "1000 \<le> n \<and> n < 1000000"
    then show "formatTokens (Some n) = toFixed (js_div n 1000) 1 @ ''K''"
      by (simp add: formatTokens_def)
  next
    assume "1000 \<le> n \<and> n < 1000000"
    then show "formatTokens (Some n) =
        decimalText \<lfloor>js_div n 1000 * 10 ^ 1 + 1 / 2\<rfloor> 1 @ ''K''"
      using formatTokens_K [of n] by blast
  qed
  have none: "formatTokens None = ''-''"
    by (simp add: formatTokens_def)
  have small: "n < 1000 \<longrightarrow> formatTokens (Some n) = Number_toString n"
    using formatTokens_small [of n] by blast
  have sm: "- (10 ^ 15) < k \<and> k < 1000 \<longrightarrow>
      formatTokens (Some (of_int k)) = (if k < 0 then ''-'' else '''') @ digits \<bar>k\<bar>"
    using formatTokens_integer [of k] by blast
  show ?thesis
    by (intro conjI none big bigText huge mid small sm formatTokens_examples)
qed

theorem formatTokens_texts_witness:
  "formatTokens (Some 1234567) = ''1.23M'' \<and>
   formatTokens (Some (fl (10 ^ 27))) = ''1e+21M'' \<and>
   formatTokens (Some 999999) = ''1000.0K'' \<and>
   formatTokens (Some (25 / 2)) = ''12.5'' \<and>
   formatTokens (Some 42) = ''42''"
proof -
  have f: "decimalText \<lfloor>js_div 1234567 1000000 * 10 ^ 2 + 1 / 2\<rfloor> 2 @ ''M'' = ''1.23M''"
    "Number_toString (js_div (fl (10 ^ 27)) 1000000) @ ''M'' = ''1e+21M''"
    "decimalText \<lfloor>js_div 999999 1000 * 10 ^ 1 + 1 / 2\<rfloor> 1 @ ''K'' = ''1000.0K''"
    "Number_toString (25 / 2) = ''12.5''"
    "(if (42::int) < 0 then ''-'' else '''') @ digits \<bar>42\<bar> = ''42''"
    by code_simp+
  have g: "js_div 1234567 1000000 < 10 ^ 21" "10 ^ 21 \<le> js_div (fl (10 ^ 27)) 1000000"
    "1000000 \<le> fl (10 ^ 27)"
    by code_simp+
  have h: "(1000000::rat) \<le> 1234567" "(1000::rat) \<le> 999999 \<and> (999999::rat) < 1000000"
    "(25 / 2 :: rat) < 1000" "- (10 ^ 15) < (42::int) \<and> (42::int) < 1000"
    by simp_all
  have "formatTokens (Some 1234567) =
      decimalText \<lfloor>js_div 1234567 1000000 * 10 ^ 2 + 1 / 2\<rfloor> 2 @ ''M''"
    using h(1) g(1) formatTokens_texts [of 1234567 42] by blast
  moreover have "formatTokens (Some (fl (10 ^ 27))) =
      Number_toString (js_div (fl (10 ^ 27)) 1000000) @ ''M''"
    using g(2,3) formatTokens_texts [of "fl (10 ^ 27)" 42] by blast
  moreover have "formatTokens (Some 999999) =
      decimalText \<lfloor>js_div 999999 1000 * 10 ^ 1 + 1 / 2\<rfloor> 1 @ ''K''"
    using h(2) formatTokens_texts [of 999999 42] by blast
  moreover have "formatTokens (Some (25 / 2)) = Number_toString (25 / 2)"
    using h(3) formatTokens_texts [of "25 / 2" 42] by blast
  moreover have "formatTokens (Some (of_int 42)) = (if (42::int) < 0 then ''-'' else '''') @ digits \<bar>42\<bar>"
    using h(4) formatTokens_texts [of 999999 42] by blast
  moreover have "(of_int 42 :: rat) = 42" by simp
  ultimately show ?thesis
    by (simp only: f)
qed

section \<open>Properties of the remote calls and of a fetch\<close>

lemma query_cases:
  "query invoke String key url per =
     (case invoke ''query_api_usage'' (invokeArgs key url per) of
        Inr r \<Rightarrow> Inr r
      | Inl e \<Rightarrow>
          (case errorText String e of
             Inl t \<Rightarrow> Inl t
           | Inr s \<Rightarrow> Inr \<lparr>UsageLogResult.success = False, UsageLogResult.data = None,
                            UsageLogResult.error = Some s\<rparr>))"
  by (simp add: query_def)

lemma queryModelStats_cases:
  "queryModelStats invoke String key url per =
     (case invoke ''query_model_stats'' (invokeArgs key url per) of
        Inr r \<Rightarrow> Inr r
      | Inl e \<Rightarrow>
          (case errorText String e of
             Inl t \<Rightarrow> Inl t
           | Inr s \<Rightarrow> Inr \<lparr>success = False, data = None, period = None, error = Some s\<rparr>))"
  by (simp add: queryModelStats_def)

lemma invokeArgs_default: "invokeArgs key url None = invokeArgs key url (Some ''daily'')"
  by (simp add: invokeArgs_def)

text \<open>A wrapper rejects in one case only: \<open>invoke\<close> threw a value on which \<open>String\<close> throws.\<close>

lemma query_resolves_or:
  "(\<exists>r. query invoke String key url per = Inr r) \<or>
   (\<exists>v t. invoke ''query_api_usage'' (invokeArgs key url per) = Inl (ThrownOther v) \<and>
          String v = Inl t \<and> query invoke String key url per = Inl t)"
proof (cases "invoke ''query_api_usage'' (invokeArgs key url per)")
  case (Inr r)
  then show ?thesis by (simp add: query_def)
next
  case (Inl e)
  then show ?thesis
    by (cases e; cases "errorText String e") (auto simp: query_def)
qed

lemma queryModelStats_resolves_or:
  "(\<exists>r. queryModelStats invoke String key url per = Inr r) \<or>
   (\<exists>v t. invoke ''query_model_stats'' (invokeArgs key url per) = Inl (ThrownOther v) \<and>
          String v = Inl t \<and> queryModelStats invoke String key url per = Inl t)"
proof (cases "invoke ''query_model_stats'' (invokeArgs key url per)")
  case (Inr r)
  then show ?thesis by (simp add: queryModelStats_def)
next
  case (Inl e)
  then show ?thesis
    by (cases e; cases "errorText String e") (auto simp: queryModelStats_def)
qed

text \<open>
  C10, as stated, fails: the wrappers can raise. \<open>String(error)\<close> is evaluated inside the
  \<open>catch\<close> block; when \<open>invoke\<close> throws an object that cannot be converted to a string,
  \<open>String\<close> throws a \<open>TypeError\<close> and the wrapper rejects with it instead of returning a
  result object.
\<close>

theorem usageLogApi_rejects_counterexample:
  "query (throwsValue Unconvertible) exampleString ''key'' None None =
     Inl (ThrownOther TypeErrorObject) \<and>
   queryModelStats (throwsValue Unconvertible) exampleString ''key'' None None =
     Inl (ThrownOther TypeErrorObject)"
  by (simp add: query_def queryModelStats_def throwsValue_def)

text \<open>
  C10, amended. Each of the two wrappers returns a result object for every outcome of
  \<open>invoke\<close> but one. When \<open>invoke\<close> returns, its result is passed on. When it throws a
  string, the result has \<open>success = false\<close> and that string as \<open>error\<close>. When it throws
  another value and \<open>String\<close> converts it, the result has \<open>success = false\<close> and the
  converted text as \<open>error\<close>. When \<open>String\<close> throws on the thrown value, and only then,
  the wrapper rejects, with what \<open>String\<close> threw. Without a period argument both pass
  \<open>daily\<close> to \<open>invoke\<close>.
\<close>

theorem usageLogApi_results:
  "(invoke1 ''query_api_usage'' (invokeArgs key url per) = Inr r1 \<longrightarrow>
      query invoke1 String key url per = Inr r1) \<and>
   (invoke2 ''query_model_stats'' (invokeArgs key url per) = Inr r2 \<longrightarrow>
      queryModelStats invoke2 String key url per = Inr r2) \<and>
   (invoke1 ''query_api_usage'' (invokeArgs key url per) = Inl (ThrownString s) \<longrightarrow>
      query invoke1 String key url per =
        Inr \<lparr>UsageLogResult.success = False, UsageLogResult.data = None,
             UsageLogResult.error = Some s\<rparr>) \<and>
   (invoke2 ''query_model_stats'' (invokeArgs key url per) = Inl (ThrownString s) \<longrightarrow>
      queryModelStats invoke2 String key url per =
        Inr \<lparr>success = False, data = None, period = None, error = Some s\<rparr>) \<and>
   (invoke1 ''query_api_usage'' (invokeArgs key url per) = Inl (ThrownOther v) \<and> String v = Inr s \<longrightarrow>
      query invoke1 String key url per =
        Inr \<lparr>UsageLogResult.success = False, UsageLogResult.data = None,
             UsageLogResult.error = Some s\<rparr>) \<and>
   (invoke2 ''query_model_stats'' (invokeArgs key url per) = Inl (ThrownOther v) \<and> String v = Inr s \<longrightarrow>
      queryModelStats invoke2 String key url per =
        Inr \<lparr>success = False, data = None, period = None, error = Some s\<rparr>) \<and>
   (invoke1 ''query_api_usage'' (invokeArgs key url per) = Inl (ThrownOther v) \<and> String v = Inl t \<longrightarrow>
      query invoke1 String key url per = Inl t) \<and>
   (invoke2 ''query_model_stats'' (invokeArgs key url per) = Inl (ThrownOther v) \<and> String v = Inl t \<longrightarrow>
      queryModelStats invoke2 String key url per = Inl t) \<and>
   ((\<exists>r. query invoke1 String key url per = Inr r) \<or>
    (\<exists>w u. invoke1 ''query_api_usage'' (invokeArgs key url per) = Inl (ThrownOther w) \<and>
           String w = Inl u \<and> query invoke1 String key url per = Inl u)) \<and>
   ((\<exists>r. queryModelStats invoke2 String key url per = Inr r) \<or>
    (\<exists>w u. invoke2 ''query_model_stats'' (invokeArgs key url per) = Inl (ThrownOther w) \<and>
           String w = Inl u \<and> queryModelStats invoke2 String key url per = Inl u)) \<and>
   InvokeArgs.period (invokeArgs key url None) = ''daily'' \<and>
   query invoke1 String key url None = query invoke1 String key url (Some ''daily'') \<and>
   queryModelStats invoke2 String key url None = queryModelStats invoke2 String key url (Some ''daily'')"
proof -
  have "InvokeArgs.period (invokeArgs key url None) = ''daily''"
    by (simp add: invokeArgs_def)
  moreover have "query invoke1 String key url None = query invoke1 String key url (Some ''daily'')"
    by (simp only: query_cases invokeArgs_default)
  moreover have "queryModelStats invoke2 String key url None =
      queryModelStats invoke2 String key url (Some ''daily'')"
    by (simp only: queryModelStats_cases invokeArgs_default)
  moreover have "invoke1 ''query_api_usage'' (invokeArgs key url per) = Inr r1 \<longrightarrow>
      query invoke1 String key url per = Inr r1"
    by (simp add: query_def)
  moreover have "invoke2 ''query_model_stats'' (invokeArgs key url per) = Inr r2 \<longrightarrow>
      queryModelStats invoke2 String key url per = Inr r2"
    by (simp add: queryModelStats_def)
  moreover have "invoke1 ''query_api_usage'' (invokeArgs key url per) = Inl (ThrownString s) \<longrightarrow>
      query invoke1 String key url per =
        Inr \<lparr>UsageLogResult.success = False, UsageLogResult.data = None,
             UsageLogResult.error = Some s\<rparr>"
    by (simp add: query_def)
  moreover have "invoke2 ''query_model_stats'' (invokeArgs key url per) = Inl (ThrownString s) \<longrightarrow>
      queryModelStats invoke2 String key url per =
        Inr \<lparr>success = False, data = None, period = None, error = Some s\<rparr>"
    by (simp add: queryModelStats_def)
  moreover have "invoke1 ''query_api_usage'' (invokeArgs key url per) = Inl (ThrownOther v) \<and>
      String v = Inr s \<longrightarrow>
      query invoke1 String key url per =
        Inr \<lparr>UsageLogResult.success = False, UsageLogResult.data = None,
             UsageLogResult.error = Some s\<rparr>"
    by (simp add: query_def)
  moreover have "invoke2 ''query_model_stats'' (invokeArgs key url per) = Inl (ThrownOther v) \<and>
      String v = Inr s \<longrightarrow>
      queryModelStats invoke2 String key url per =
        Inr \<lparr>success = False, data = None, period = None, error = Some s\<rparr>"
    by (simp add: queryModelStats_def)
  moreover have "invoke1 ''query_api_usage'' (invokeArgs key url per) = Inl (ThrownOther v) \<and>
      String v = Inl t \<longrightarrow> query invoke1 String key url per = Inl t"
    by (simp add: query_def)
  moreover have "invoke2 ''query_model_stats'' (invokeArgs key url per) = Inl (ThrownOther v) \<and>
      String v = Inl t \<longrightarrow> queryModelStats invoke2 String key url per = Inl t"
    by (simp add: queryModelStats_def)
  moreover note query_resolves_or [of invoke1 String key url per]
    queryModelStats_resolves_or [of invoke2 String key url per]
  ultimately show ?thesis
    by (intro conjI)
qed

theorem usageLogApi_results_witness:
  "query throwsPeriod (\<lambda>u. Inr ''unit'') ''key'' None None =
     Inr \<lparr>UsageLogResult.success = False, UsageLogResult.data = None,
          UsageLogResult.error = Some ''daily''\<rparr> \<and>
   queryModelStats (throwsValue (ErrorObject ''boom'')) exampleString ''key'' (Some ''https://x'')
       (Some ''monthly'') =
     Inr \<lparr>success = False, data = None, period = None, error = Some ''Error: boom''\<rparr> \<and>
   query (throwsValue Unconvertible) exampleString ''key'' None None =
     Inl (ThrownOther TypeErrorObject) \<and>
   query (returns overviewOk) (\<lambda>u. Inr ''unit'') ''key'' None (Some '''') = Inr overviewOk"
proof -
  have a: "throwsPeriod ''query_api_usage'' (invokeArgs ''key'' None None)
      = (Inl (ThrownString ''daily'') :: unit thrown + UsageLogResult)"
    by (simp add: throwsPeriod_def invokeArgs_def)
  have b: "throwsValue (ErrorObject ''boom'') ''query_model_stats''
        (invokeArgs ''key'' (Some ''https://x'') (Some ''monthly''))
      = (Inl (ThrownOther (ErrorObject ''boom'')) :: thrownValue thrown + ModelStatsResult) \<and>
      exampleString (ErrorObject ''boom'') = Inr ''Error: boom''"
    by (simp add: throwsValue_def)
  have c: "throwsValue Unconvertible ''query_api_usage'' (invokeArgs ''key'' None None)
      = (Inl (ThrownOther Unconvertible) :: thrownValue thrown + UsageLogResult) \<and>
      exampleString Unconvertible = Inl (ThrownOther TypeErrorObject)"
    by (simp add: throwsValue_def)
  have d: "returns overviewOk ''query_api_usage'' (invokeArgs ''key'' None (Some '''')) = Inr overviewOk"
    by (simp add: returns_def)
  have "query throwsPeriod (\<lambda>u. Inr ''unit'') ''key'' None None =
     Inr \<lparr>UsageLogResult.success = False, UsageLogResult.data = None,
          UsageLogResult.error = Some ''daily''\<rparr>"
    using a usageLogApi_results [where ?invoke1.0 = throwsPeriod and key = "''key''" and url = None
        and per = None and String = "\<lambda>u. Inr ''unit''" and s = "''daily''"]
    by blast
  moreover have "queryModelStats (throwsValue (ErrorObject ''boom'')) exampleString ''key''
       (Some ''https://x'') (Some ''monthly'') =
     Inr \<lparr>success = False, data = None, period = None, error = Some ''Error: boom''\<rparr>"
    using b usageLogApi_results [where ?invoke2.0 = "throwsValue (ErrorObject ''boom'')"
        and key = "''key''" and url = "Some ''https://x''" and per = "Some ''monthly''"
        and String = exampleString and v = "ErrorObject ''boom''" and s = "''Error: boom''"]
    by blast
  moreover have "query (throwsValue Unconvertible) exampleString ''key'' None None =
     Inl (ThrownOther TypeErrorObject)"
    using c usageLogApi_results [where ?invoke1.0 = "throwsValue Unconvertible"
        and key = "''key''" and url = None and per = None
        and String = exampleString and v = Unconvertible and t = "ThrownOther TypeErrorObject"]
    by blast
  moreover have "query (returns overviewOk) (\<lambda>u. Inr ''unit'') ''key'' None (Some '''') = Inr overviewOk"
    using d usageLogApi_results [where ?invoke1.0 = "returns overviewOk" and key = "''key''"
        and url = None and per = "Some ''''" and String = "\<lambda>u. Inr ''unit''" and ?r1.0 = overviewOk]
    by blast
  ultimately show ?thesis by (intro conjI)
qed

text \<open>
  The handler on calls that reject: when \<open>String\<close> converts the rejection, the per-model
  results are cleared and one error is left, the text of the rejection. When \<open>String\<close>
  throws on it, nothing is stored, the loading flag is reset and the handler rejects.
\<close>

lemma handleQuery_on_rejected:
  assumes "trim key \<noteq> []"
    and "promiseAll firstWins (q1 key (Some url) (Some per)) (q2 key (Some url) (Some per)) = Inl e"
    and "errorText String e = Inr s"
  shows "modelStats (handleQuery_on q1 q2 String firstWins key url per st) = None \<and>
         showsError unknownText (handleQuery_on q1 q2 String firstWins key url per st) =
           Some (orString (Some s) unknownText)"
  using assms by (simp add: handleQuery_on_def showsError_def)

lemma handleQuery_on_rethrows:
  assumes "trim key \<noteq> []"
    and "promiseAll firstWins (q1 key (Some url) (Some per)) (q2 key (Some url) (Some per)) = Inl e"
    and "errorText String e = Inl t"
  shows "handleQuery_on q1 q2 String firstWins key url per st = st\<lparr>isLoading := False\<rparr> \<and>
         handleQuery_on_rejection q1 q2 String firstWins key url per = Some t"
  using assms by (simp add: handleQuery_on_def handleQuery_on_rejection_def)

text \<open>
  The handler on the wrappers: when both resolve, the results of both are stored as they
  are, whatever their \<open>success\<close>. By the lemmas above a wrapper resolves unless \<open>String\<close>
  throws on what \<open>invoke\<close> threw.
\<close>

lemma handleQuery_stores_both:
  assumes "trim key \<noteq> []"
    and "query invoke1 String key (Some url) (Some per) = Inr r1"
    and "queryModelStats invoke2 String key (Some url) (Some per) = Inr r2"
  shows "handleQuery invoke1 invoke2 String firstWins key url per st =
         st\<lparr>result := Some r1, modelStats := Some r2, isLoading := False\<rparr>"
  using assms by (simp add: handleQuery_def handleQuery_on_def)

text \<open>
  After a fetch through the wrappers the error view depends on the overview alone: it is
  rendered exactly when the overview result has \<open>success = false\<close>, and the per-model
  result has no part in it.
\<close>

lemma handleQuery_error_view:
  assumes "trim key \<noteq> []"
    and "query invoke1 String key (Some url) (Some per) = Inr r1"
    and "queryModelStats invoke2 String key (Some url) (Some per) = Inr r2"
  shows "showsError unknownText (handleQuery invoke1 invoke2 String firstWins key url per st) =
           (if UsageLogResult.success r1 then None
            else Some (orString (UsageLogResult.error r1) unknownText))"
    and "modelStats (handleQuery invoke1 invoke2 String firstWins key url per st) = Some r2"
  by (simp_all add: handleQuery_stores_both [OF assms] showsError_def)

text \<open>
  C6. The claim: whenever either remote call rejects or answers \<open>success = false\<close>, the
  overview and the per-model results are both cleared and a single error is shown, so
  that no per-model data of a failed fetch stays in the state beside the error. The
  handler does this on a rejection only, and a wrapper turns every failure of the backend
  into a result with \<open>success = false\<close>, unless \<open>String\<close> throws on what was thrown. Run
  on the wrappers the handler behaves as follows. With a failed overview and successful
  per-model statistics, the state after the fetch shows the error and still holds the
  per-model data of that fetch. With a successful overview and a failed per-model query
  (the backend answers \<open>success = false\<close>, or throws), the overview is shown, no error is
  shown, and the failed result stays in the state.
\<close>

theorem handleQuery_failed_fetch:
  "showsError ''unknown error'' (handleQuery (returns overviewFailed) (returns statsOk) (\<lambda>u. Inr ''unit'') True
                 ''key'' ''https://x'' ''daily'' idle) = Some ''invalid key'' \<and>
   modelStats (handleQuery (returns overviewFailed) (returns statsOk) (\<lambda>u. Inr ''unit'') True
                 ''key'' ''https://x'' ''daily'' idle) = Some statsOk \<and>
   allModels (handleQuery (returns overviewFailed) (returns statsOk) (\<lambda>u. Inr ''unit'') True
                 ''key'' ''https://x'' ''daily'' idle) = [opusItem] \<and>
   showsError ''unknown error'' (handleQuery (returns overviewOk) (returns statsFailed) (\<lambda>u. Inr ''unit'') True
                 ''key'' ''https://x'' ''daily'' idle) = None \<and>
   showsData (handleQuery (returns overviewOk) (returns statsFailed) (\<lambda>u. Inr ''unit'') True
                 ''key'' ''https://x'' ''daily'' idle) \<and>
   modelStats (handleQuery (returns overviewOk) (returns statsFailed) (\<lambda>u. Inr ''unit'') True
                 ''key'' ''https://x'' ''daily'' idle) = Some statsFailed \<and>
   showsError ''unknown error'' (handleQuery (returns overviewOk) throwsOther (\<lambda>u. Inr ''unit'') True
                 ''key'' ''https://x'' ''daily'' idle) = None \<and>
   showsData (handleQuery (returns overviewOk) throwsOther (\<lambda>u. Inr ''unit'') True
                 ''key'' ''https://x'' ''daily'' idle) \<and>
   modelStats (handleQuery (returns overviewOk) throwsOther (\<lambda>u. Inr ''unit'') True
                 ''key'' ''https://x'' ''daily'' idle) =
     Some \<lparr>success = False, data = None, period = None, error = Some ''unit''\<rparr>"
proof -
  have t: "trim ''key'' \<noteq> []"
    by (simp add: trim_def isSpace_def)
  show ?thesis
    by (simp add: handleQuery_def handleQuery_on_def t query_def queryModelStats_def returns_def
        throwsOther_def showsError_def showsData_def allModels_def idle_def overviewFailed_def
        overviewOk_def statsOk_def statsFailed_def)
qed

end
